theory Spec2Isabelle
  imports Complex_Main
begin

section \<open>The trie-reservoir language model of \<^verbatim>\<open>trlm.c\<close>\<close>

text \<open>
  A shallow embedding of \<^verbatim>\<open>src/trlm.c\<close>. Conventions:

  \<^item> A C \<^verbatim>\<open>float\<close> is modelled by a \<^typ>\<open>real\<close>: every arithmetic operation is the exact
    one, \<^verbatim>\<open>expf\<close> is \<^term>\<open>exp\<close>, and the decimal literals \<^verbatim>\<open>0.85f\<close>, \<^verbatim>\<open>0.9f\<close>,
    \<^verbatim>\<open>0.01f\<close>, \<^verbatim>\<open>1e-5f\<close> are the decimal fractions they are written as. Rounding is
    outside the model throughout. The two functions whose result depends on the overflow of
    \<^verbatim>\<open>expf\<close>, \<^verbatim>\<open>activate_tanh\<close> and \<^verbatim>\<open>readout_forward\<close>, are embedded a second time over a
    type \<open>f32\<close> that has the range of binary32, its infinities and NaN.
  \<^item> The data objects of the program are the fields of one record, \<open>machine\<close>; a pointer
    parameter of a C function (\<^verbatim>\<open>root\<close>, \<^verbatim>\<open>h_state\<close>, \<^verbatim>\<open>h_inout\<close>) denotes the object of
    that record it points to in \<^verbatim>\<open>main\<close>, and the objects do not overlap.
  \<^item> \<^verbatim>\<open>rand()\<close> reads the next element of a sequence of integers that the machine carries;
    \<^verbatim>\<open>RAND_MAX\<close>, which \<^verbatim>\<open>stdlib.h\<close> defines, is a parameter carried by the machine too.
  \<^item> A C string is the list of its bytes before the terminating zero, so \<^verbatim>\<open>strlen\<close> is
    \<^term>\<open>length\<close>; lengths and trie depths stay far below \<^verbatim>\<open>INT_MAX\<close> and are unbounded
    integers here.
  \<^item> A \<^verbatim>\<open>for\<close> loop over \<open>0 \<le> i < n\<close> is a \<^term>\<open>fold\<close> over \<^term>\<open>[0..<n]\<close> of the loop body,
    and an array cell is written with a list update.
\<close>

subsection \<open>Constants\<close>

definition MAX_CHILDREN :: nat where
  "MAX_CHILDREN = 256"

definition RESERVOIR_SIZE :: nat where
  "RESERVOIR_SIZE = 64"

definition MAX_DEPTH :: nat where
  "MAX_DEPTH = 16"

definition ALPHA :: real where
  "ALPHA = 85 / 100"

definition RHO :: real where
  "RHO = 9 / 10"

definition OUT_DIM :: nat where
  "OUT_DIM = 4"

subsection \<open>Data\<close>

text \<open>
  \<^verbatim>\<open>struct TrieNode\<close>: the array of \<^verbatim>\<open>MAX_CHILDREN\<close> child pointers (\<^verbatim>\<open>NULL\<close> is \<^term>\<open>None\<close>),
  the depth and the leaf flag. Every node is owned by its parent, so the pointer structure
  is a tree.
\<close>

datatype TrieNode =
  TrieNode (children: "TrieNode option list") (depth: int) (is_leaf: int)

datatype error = DivisionByZero | OutOfBounds

record machine =
  trie :: TrieNode
  reservoir_weights :: "real list list"
  readout_weights :: "real list list"
  tmp :: "real list"
  h_state :: "real list"
  RAND_MAX :: int
  rand_seq :: "nat \<Rightarrow> int"
  rand_calls :: nat

text \<open>
  \<open>trie\<close> is the tree \<^verbatim>\<open>root\<close> points to, \<open>reservoir_weights\<close> the bank of flattened
  matrices behind the global \<^verbatim>\<open>float**\<close>, \<open>readout_weights\<close> the global
  \<^verbatim>\<open>float[OUT_DIM][RESERVOIR_SIZE]\<close>, \<open>tmp\<close> the static buffer of \<^verbatim>\<open>reservoir_update\<close>,
  \<open>h_state\<close> the caller's state vector. \<open>rand_seq m k\<close> is what the \<open>k\<close>-th call of
  \<^verbatim>\<open>rand()\<close> returns and \<open>rand_calls\<close> counts the calls made.
\<close>

subsection \<open>Random numbers and activation\<close>

definition rand :: "machine \<Rightarrow> int \<times> machine" where
  "rand m = (rand_seq m (rand_calls m), m\<lparr>rand_calls := rand_calls m + 1\<rparr>)"

definition rand_float :: "machine \<Rightarrow> real \<times> machine" where
  "rand_float m =
     (case rand m of (r, m') \<Rightarrow>
        (real_of_int r / real_of_int (RAND_MAX m div 2) - 1, m'))"

definition activate_tanh :: "real \<Rightarrow> real" where
  "activate_tanh x = (let e1 = exp x; e2 = exp (- x) in (e1 - e2) / (e1 + e2))"

subsection \<open>Matrix-vector product\<close>

definition matvec :: "real list \<Rightarrow> real list \<Rightarrow> real list \<Rightarrow> real list" where
  "matvec W inp out =
     fold (\<lambda>i out.
             out[i := fold (\<lambda>j s. s + W ! (i * RESERVOIR_SIZE + j) * inp ! j)
                           [0..<RESERVOIR_SIZE] 0])
          [0..<RESERVOIR_SIZE] out"

subsection \<open>Trie\<close>

definition create_trie_node :: "int \<Rightarrow> TrieNode" where
  "create_trie_node d = TrieNode (replicate MAX_CHILDREN None) d 0"

text \<open>
  The loop of \<^verbatim>\<open>trie_insert\<close> at index \<open>i\<close>, with \<open>cur\<close> the node the cursor is at and the
  list the bytes from position \<open>i\<close> on, so that \<open>i < length\<close> holds exactly when the list is
  not empty. The result is \<open>cur\<close> after the writes the rest of the run makes below it. The
  bound \<^verbatim>\<open>length = (int)strlen(str)\<close> is the length of the list: a string of \<open>2\<^sup>3\<^sup>1\<close> bytes or
  more, whose length no \<^verbatim>\<open>int\<close> holds, is outside the model.
\<close>

fun trie_insert_from :: "nat \<Rightarrow> TrieNode \<Rightarrow> string \<Rightarrow> TrieNode" where
  "trie_insert_from i (TrieNode cs d lf) [] = TrieNode cs d 1"
| "trie_insert_from i (TrieNode cs d lf) (c # str) =
     (if i < MAX_DEPTH then
        (let child = (case cs ! of_char c of
                        None \<Rightarrow> create_trie_node (d + 1)
                      | Some n \<Rightarrow> n)
         in TrieNode (cs[of_char c := Some (trie_insert_from (Suc i) child str)]) d lf)
      else TrieNode cs d 1)"

definition trie_insert :: "string \<Rightarrow> machine \<Rightarrow> machine" where
  "trie_insert str m = m\<lparr>trie := trie_insert_from 0 (trie m) str\<rparr>"

subsection \<open>Reservoir weights\<close>

text \<open>
  A division whose divisor is computed: a zero divisor is the error \<open>DivisionByZero\<close>.
\<close>

definition checked_div :: "real \<Rightarrow> real \<Rightarrow> error + real" where
  "checked_div x y = (if y = 0 then Inl DivisionByZero else Inr (x / y))"

text \<open>The first inner loop: fill matrix \<open>l\<close> and accumulate \<^verbatim>\<open>norm_sum\<close>.\<close>

definition init_fill :: "nat \<Rightarrow> machine \<times> real \<Rightarrow> machine \<times> real" where
  "init_fill l =
     fold (\<lambda>i (m, norm_sum).
             case rand_float m of (u, m1) \<Rightarrow>
               (let m2 = m1\<lparr>reservoir_weights :=
                              (reservoir_weights m1)[l := (reservoir_weights m1 ! l)[i := u]]\<rparr>
                in (m2, norm_sum + \<bar>reservoir_weights m2 ! l ! i\<bar>)))
          [0..<RESERVOIR_SIZE * RESERVOIR_SIZE]"

text \<open>The second inner loop: multiply every entry of matrix \<open>l\<close> by \<^verbatim>\<open>scale\<close>.\<close>

definition init_scale :: "nat \<Rightarrow> real \<Rightarrow> machine \<Rightarrow> machine" where
  "init_scale l scale =
     fold (\<lambda>i m. m\<lparr>reservoir_weights :=
                     (reservoir_weights m)[l := (reservoir_weights m ! l)
                        [i := reservoir_weights m ! l ! i * scale]]\<rparr>)
          [0..<RESERVOIR_SIZE * RESERVOIR_SIZE]"

text \<open>
  One round of the outer loop. The freshly allocated matrix holds arbitrary values, every
  one of which the first loop overwrites; zeros stand for them.
\<close>

definition init_level :: "nat \<Rightarrow> machine \<Rightarrow> error + machine" where
  "init_level l m =
     (let m0 = m\<lparr>reservoir_weights :=
                   (reservoir_weights m)[l := replicate (RESERVOIR_SIZE * RESERVOIR_SIZE) 0]\<rparr>
      in case init_fill l (m0, 0) of (m1, norm_sum) \<Rightarrow>
           (case checked_div norm_sum (real (RESERVOIR_SIZE * RESERVOIR_SIZE)) of
              Inl e \<Rightarrow> Inl e
            | Inr avg_abs \<Rightarrow>
                (case (if avg_abs > 1 / 100000 then checked_div RHO avg_abs else Inr 1) of
                   Inl e \<Rightarrow> Inl e
                 | Inr scale \<Rightarrow> Inr (init_scale l scale m1))))"

fun init_levels :: "nat list \<Rightarrow> machine \<Rightarrow> error + machine" where
  "init_levels [] m = Inr m"
| "init_levels (l # ls) m =
     (case init_level l m of Inl e \<Rightarrow> Inl e | Inr m' \<Rightarrow> init_levels ls m')"

text \<open>
  \<^verbatim>\<open>init_reservoir_weights\<close>. \<open>seeded\<close> is the sequence \<^verbatim>\<open>rand()\<close> produces after
  \<^verbatim>\<open>srand(time(NULL))\<close>.
\<close>

definition init_reservoir_weights :: "nat \<Rightarrow> (nat \<Rightarrow> int) \<Rightarrow> machine \<Rightarrow> error + machine" where
  "init_reservoir_weights depth_count seeded m =
     init_levels [0..<depth_count]
       (m\<lparr>reservoir_weights := replicate depth_count [], rand_seq := seeded, rand_calls := 0\<rparr>)"

subsection \<open>Reservoir dynamics\<close>

text \<open>
  \<^verbatim>\<open>reservoir_update\<close> is \<^verbatim>\<open>matvec\<close> into \<^verbatim>\<open>tmp\<close> followed by two loops: \<open>add_noise\<close> adds
  \<^verbatim>\<open>0.01f * rand_float()\<close> to every cell of \<^verbatim>\<open>tmp\<close>, \<open>squash\<close> writes \<^verbatim>\<open>ALPHA\<close> times the
  activation of every cell into the state vector.
\<close>

definition add_noise :: "machine \<Rightarrow> machine" where
  "add_noise =
     fold (\<lambda>i m. case rand_float m of (u, m1) \<Rightarrow>
                    m1\<lparr>tmp := (tmp m1)[i := tmp m1 ! i + 1 / 100 * u]\<rparr>)
          [0..<RESERVOIR_SIZE]"

definition squash :: "machine \<Rightarrow> machine" where
  "squash =
     fold (\<lambda>i m. let z = activate_tanh (tmp m ! i)
                  in m\<lparr>h_state := (h_state m)[i := ALPHA * z]\<rparr>)
          [0..<RESERVOIR_SIZE]"

definition reservoir_update :: "real list \<Rightarrow> machine \<Rightarrow> machine" where
  "reservoir_update Wl m =
     squash (add_noise (m\<lparr>tmp := matvec Wl (h_state m) (tmp m)\<rparr>))"

text \<open>
  The loop of \<^verbatim>\<open>trie_reservoir_forward\<close> at index \<open>i\<close>, cursor at \<open>cur\<close>, the list the bytes
  of the input from position \<open>i\<close> on. A missing child is the \<^verbatim>\<open>break\<close>. Reading
  \<^verbatim>\<open>reservoir_weights[l]\<close> outside the bank is the error \<open>OutOfBounds\<close>.
\<close>

fun forward_from :: "nat \<Rightarrow> TrieNode \<Rightarrow> string \<Rightarrow> machine \<Rightarrow> error + machine" where
  "forward_from i cur [] m = Inr m"
| "forward_from i cur (c # str) m =
     (if i < MAX_DEPTH then
        (case children cur ! of_char c of
           None \<Rightarrow> Inr m
         | Some child \<Rightarrow>
             (let l = depth cur
              in if 0 \<le> l \<and> nat l < length (reservoir_weights m)
                 then forward_from (Suc i) child str
                        (reservoir_update (reservoir_weights m ! nat l) m)
                 else Inl OutOfBounds))
      else Inr m)"

definition trie_reservoir_forward :: "string \<Rightarrow> machine \<Rightarrow> error + machine" where
  "trie_reservoir_forward input m = forward_from 0 (trie m) input m"

subsection \<open>Readout\<close>

text \<open>
  \<^verbatim>\<open>readout_forward\<close>: the second argument is the buffer \<^verbatim>\<open>out_probs\<close> as the caller hands it
  over, the result the buffer on return. \<open>readout_logit m i\<close> is the inner loop that
  accumulates \<^verbatim>\<open>z\<close> for output \<open>i\<close>, \<open>readout_exps\<close> the first outer loop, which carries the
  buffer and \<^verbatim>\<open>sum_exp\<close>; the second loop divides every cell by \<^verbatim>\<open>sum_exp\<close>.
\<close>

definition readout_logit :: "machine \<Rightarrow> nat \<Rightarrow> real" where
  "readout_logit m i =
     fold (\<lambda>j z. z + readout_weights m ! i ! j * h_state m ! j) [0..<RESERVOIR_SIZE] 0"

definition readout_exps :: "machine \<Rightarrow> real list \<times> real \<Rightarrow> real list \<times> real" where
  "readout_exps m =
     fold (\<lambda>i (out_probs, sum_exp).
             let z = readout_logit m i;
                 out_probs' = out_probs[i := exp z]
             in (out_probs', sum_exp + out_probs' ! i))
          [0..<OUT_DIM]"

definition readout_forward :: "machine \<Rightarrow> real list \<Rightarrow> real list" where
  "readout_forward m out_probs =
     (case readout_exps m (out_probs, 0) of (out1, sum_exp) \<Rightarrow>
        fold (\<lambda>i out. out[i := out ! i / sum_exp]) [0..<OUT_DIM] out1)"

text \<open>
  \<^verbatim>\<open>readout_train\<close>. The local array \<^verbatim>\<open>probs\<close> is uninitialised; \<^verbatim>\<open>readout_forward\<close> writes
  every cell of it before reading any, and zeros stand for its first contents.
  \<open>train_row i lr grad\<close> is the inner loop over the weights of row \<open>i\<close>.
\<close>

definition train_row :: "nat \<Rightarrow> real \<Rightarrow> real \<Rightarrow> machine \<Rightarrow> machine" where
  "train_row i lr grad =
     fold (\<lambda>j m. m\<lparr>readout_weights :=
                     (readout_weights m)[i := (readout_weights m ! i)
                        [j := readout_weights m ! i ! j - lr * grad * h_state m ! j]]\<rparr>)
          [0..<RESERVOIR_SIZE]"

definition readout_train :: "int \<Rightarrow> real \<Rightarrow> machine \<Rightarrow> machine" where
  "readout_train gold_index lr m =
     (let probs = readout_forward m (replicate OUT_DIM 0)
      in fold (\<lambda>i m. let grad = probs ! i;
                          grad = (if int i = gold_index then grad - 1 else grad)
                      in train_row i lr grad m)
              [0..<OUT_DIM] m)"

subsection \<open>The machine at the start of \<^verbatim>\<open>main\<close>\<close>

text \<open>
  Static storage is zero: the readout matrix and \<^verbatim>\<open>tmp\<close> hold zeros and the bank pointer is
  \<^verbatim>\<open>NULL\<close> (no matrix). The trie is the root \<^verbatim>\<open>create_trie_node(0)\<close> and the state vector is
  cleared, as \<^verbatim>\<open>main\<close> does before each forward pass.
\<close>

definition start_machine :: "int \<Rightarrow> (nat \<Rightarrow> int) \<Rightarrow> machine" where
  "start_machine rmax seq =
     \<lparr>trie = create_trie_node 0,
      reservoir_weights = [],
      readout_weights = replicate OUT_DIM (replicate RESERVOIR_SIZE 0),
      tmp = replicate RESERVOIR_SIZE 0,
      h_state = replicate RESERVOIR_SIZE 0,
      RAND_MAX = rmax,
      rand_seq = seq,
      rand_calls = 0\<rparr>"

subsection \<open>Vocabulary of the statements about tries\<close>

text \<open>
  \<open>wf_trie\<close>: every node has its \<^verbatim>\<open>MAX_CHILDREN\<close> child slots, as the C array has.
  \<open>depth_ok\<close>: every populated child's depth is its parent's plus one. \<open>walk t str\<close>: the
  node reached from \<open>t\<close> along the bytes of \<open>str\<close>, if every child on the way is there.
  \<open>nodes\<close>: the number of nodes. \<open>height\<close>: the number of levels below the root.
\<close>

fun wf_trie :: "TrieNode \<Rightarrow> bool" where
  "wf_trie (TrieNode cs d lf) =
     (length cs = MAX_CHILDREN \<and>
      (\<forall>c \<in> set cs. case c of None \<Rightarrow> True | Some n \<Rightarrow> wf_trie n))"

fun depth_ok :: "TrieNode \<Rightarrow> bool" where
  "depth_ok (TrieNode cs d lf) =
     (\<forall>c \<in> set cs. case c of None \<Rightarrow> True | Some n \<Rightarrow> depth n = d + 1 \<and> depth_ok n)"

fun walk :: "TrieNode \<Rightarrow> string \<Rightarrow> TrieNode option" where
  "walk t [] = Some t"
| "walk t (c # str) =
     (case children t ! of_char c of None \<Rightarrow> None | Some n \<Rightarrow> walk n str)"

fun nodes :: "TrieNode \<Rightarrow> nat" where
  "nodes (TrieNode cs d lf) =
     1 + sum_list (map (\<lambda>c. case c of None \<Rightarrow> 0 | Some n \<Rightarrow> nodes n) cs)"

fun height :: "TrieNode \<Rightarrow> nat" where
  "height (TrieNode cs d lf) =
     fold max (map (\<lambda>c. case c of None \<Rightarrow> 0 | Some n \<Rightarrow> Suc (height n)) cs) 0"

subsection \<open>Vocabulary of the statements about the traversal\<close>

text \<open>
  \<open>run_updates n m\<close>: the machine after \<open>n\<close> updates in a row, the \<open>k\<close>-th with the matrix
  \<open>reservoir_weights[k]\<close>. \<open>demo_machine\<close>: the start machine with a bank of \<open>MAX_DEPTH\<close>
  matrices of zeros, used for concrete instances of the statements.
\<close>

definition run_updates :: "nat \<Rightarrow> machine \<Rightarrow> machine" where
  "run_updates n m = fold (\<lambda>k m. reservoir_update (reservoir_weights m ! k) m) [0..<n] m"

definition demo_machine :: machine where
  "demo_machine =
     (start_machine 32767 (\<lambda>k. 0))
       \<lparr>reservoir_weights := replicate MAX_DEPTH (replicate (RESERVOIR_SIZE * RESERVOIR_SIZE) 0)\<rparr>"

subsection \<open>Vocabulary of the statements about the weight bank\<close>

text \<open>
  \<open>samples m\<close>: the next \<open>RESERVOIR_SIZE\<^sup>2\<close> values \<^verbatim>\<open>rand_float\<close> returns in machine \<open>m\<close>.
  \<open>mean_abs\<close>: the mean absolute value of a list, \<^verbatim>\<open>norm_sum\<close> over the number of entries.
  \<open>scale_of\<close>: the scale \<^verbatim>\<open>init_reservoir_weights\<close> chooses for a mean \<^verbatim>\<open>avg_abs\<close>.
\<close>

definition samples :: "machine \<Rightarrow> real list" where
  "samples m =
     map (\<lambda>i. fst (rand_float (m\<lparr>rand_calls := rand_calls m + i\<rparr>)))
       [0..<RESERVOIR_SIZE * RESERVOIR_SIZE]"

definition mean_abs :: "real list \<Rightarrow> real" where
  "mean_abs xs = sum_list (map abs xs) / real (length xs)"

definition scale_of :: "real \<Rightarrow> real" where
  "scale_of avg_abs = (if avg_abs > 1 / 100000 then RHO / avg_abs else 1)"

subsection \<open>The range of binary32\<close>

text \<open>
  A \<^verbatim>\<open>float\<close> with its range: a finite number, \<open>+inf\<close>, \<open>-inf\<close> or NaN. \<open>FLT_MAX\<close> is the
  largest finite binary32 number, \<open>(2 - 2\<^sup>-\<^sup>2\<^sup>3) * 2\<^sup>1\<^sup>2\<^sup>7\<close>. \<open>f32_of\<close> delivers the exact result
  of an operation: a result beyond \<open>FLT_MAX\<close> in magnitude is the infinity of its sign, and any
  other is kept as it is (rounding is left out here as well, and so is the sign of zero).
\<close>

datatype f32 = Fin real | PInf | NInf | NaN

definition FLT_MAX :: real where
  "FLT_MAX = (2 - 1 / 2 ^ 23) * 2 ^ 127"

definition EXPF_UNDERFLOW :: real where
  "EXPF_UNDERFLOW = 1 / 2 ^ 150"

definition f32_of :: "real \<Rightarrow> f32" where
  "f32_of r = (if FLT_MAX < r then PInf else if r < - FLT_MAX then NInf else Fin r)"

text \<open>
  Negation, \<^verbatim>\<open>+\<close>, \<^verbatim>\<open>-\<close>, \<^verbatim>\<open>*\<close> and \<^verbatim>\<open>/\<close> of IEEE 754: NaN is absorbing, \<open>inf - inf\<close>,
  \<open>0 * inf\<close>, \<open>0 / 0\<close> and \<open>inf / inf\<close> are NaN, a non-zero finite number over zero is an
  infinity, and a finite number over an infinity is zero.
\<close>

fun fneg :: "f32 \<Rightarrow> f32" where
  "fneg (Fin a) = Fin (- a)"
| "fneg PInf = NInf"
| "fneg NInf = PInf"
| "fneg NaN = NaN"

fun fadd :: "f32 \<Rightarrow> f32 \<Rightarrow> f32" where
  "fadd (Fin a) (Fin b) = f32_of (a + b)"
| "fadd NaN y = NaN"
| "fadd x NaN = NaN"
| "fadd PInf NInf = NaN"
| "fadd NInf PInf = NaN"
| "fadd PInf y = PInf"
| "fadd x PInf = PInf"
| "fadd NInf y = NInf"
| "fadd x NInf = NInf"

definition fsub :: "f32 \<Rightarrow> f32 \<Rightarrow> f32" where
  "fsub x y = fadd x (fneg y)"

fun fmul :: "f32 \<Rightarrow> f32 \<Rightarrow> f32" where
  "fmul (Fin a) (Fin b) = f32_of (a * b)"
| "fmul NaN y = NaN"
| "fmul x NaN = NaN"
| "fmul (Fin a) PInf = (if a = 0 then NaN else if 0 < a then PInf else NInf)"
| "fmul (Fin a) NInf = (if a = 0 then NaN else if 0 < a then NInf else PInf)"
| "fmul PInf (Fin b) = (if b = 0 then NaN else if 0 < b then PInf else NInf)"
| "fmul NInf (Fin b) = (if b = 0 then NaN else if 0 < b then NInf else PInf)"
| "fmul PInf PInf = PInf"
| "fmul NInf NInf = PInf"
| "fmul PInf NInf = NInf"
| "fmul NInf PInf = NInf"

fun fdiv :: "f32 \<Rightarrow> f32 \<Rightarrow> f32" where
  "fdiv (Fin a) (Fin b) =
     (if b = 0 then (if a = 0 then NaN else if 0 < a then PInf else NInf) else f32_of (a / b))"
| "fdiv NaN y = NaN"
| "fdiv x NaN = NaN"
| "fdiv (Fin a) PInf = Fin 0"
| "fdiv (Fin a) NInf = Fin 0"
| "fdiv PInf (Fin b) = (if b < 0 then NInf else PInf)"
| "fdiv NInf (Fin b) = (if b < 0 then PInf else NInf)"
| "fdiv PInf PInf = NaN"
| "fdiv PInf NInf = NaN"
| "fdiv NInf PInf = NaN"
| "fdiv NInf NInf = NaN"

text \<open>
  \<^verbatim>\<open>expf\<close> of the C library: \<open>+inf\<close> when the exponential exceeds \<open>FLT_MAX\<close> (arguments above
  about 88.7), zero when it is below \<open>2\<^sup>-\<^sup>1\<^sup>5\<^sup>0\<close>, half the least positive binary32 number
  (arguments below about -104), and the exponential otherwise.
\<close>

fun expf :: "f32 \<Rightarrow> f32" where
  "expf (Fin x) =
     (if FLT_MAX < exp x then PInf else if exp x < EXPF_UNDERFLOW then Fin 0 else Fin (exp x))"
| "expf PInf = PInf"
| "expf NInf = Fin 0"
| "expf NaN = NaN"

text \<open>
  \<^verbatim>\<open>activate_tanh\<close> and \<^verbatim>\<open>readout_forward\<close> once more, statement for statement, with these
  operations. The readout weights and the state vector are the finite numbers the machine
  holds; \<^verbatim>\<open>out_probs\<close> is a buffer of \<open>f32\<close> cells.
\<close>

definition activate_tanh_f32 :: "f32 \<Rightarrow> f32" where
  "activate_tanh_f32 x =
     (let e1 = expf x; e2 = expf (fneg x) in fdiv (fsub e1 e2) (fadd e1 e2))"

definition readout_logit_f32 :: "machine \<Rightarrow> nat \<Rightarrow> f32" where
  "readout_logit_f32 m i =
     fold (\<lambda>j z. fadd z (fmul (Fin (readout_weights m ! i ! j)) (Fin (h_state m ! j))))
          [0..<RESERVOIR_SIZE] (Fin 0)"

definition readout_exps_f32 :: "machine \<Rightarrow> f32 list \<times> f32 \<Rightarrow> f32 list \<times> f32" where
  "readout_exps_f32 m =
     fold (\<lambda>i (out_probs, sum_exp).
             let z = readout_logit_f32 m i;
                 out_probs' = out_probs[i := expf z]
             in (out_probs', fadd sum_exp (out_probs' ! i)))
          [0..<OUT_DIM]"

definition readout_forward_f32 :: "machine \<Rightarrow> f32 list \<Rightarrow> f32 list" where
  "readout_forward_f32 m out_probs =
     (case readout_exps_f32 m (out_probs, Fin 0) of (out1, sum_exp) \<Rightarrow>
        fold (\<lambda>i out. out[i := fdiv (out ! i) sum_exp]) [0..<OUT_DIM] out1)"

subsection \<open>Machines for concrete instances\<close>

text \<open>
  \<open>graded_machine\<close>: readout row \<open>i\<close> holds \<open>i / 64\<close> throughout and every state component is
  1, so the logits are 0, 1, 2, 3. \<open>overflow_machine\<close>: every readout weight is 4 and every
  state component is \<open>1/2\<close>, so every logit is 128. \<open>underflow_machine\<close>: every readout weight
  is -8 and every state component is \<open>1/2\<close>, so every logit is -256. \<open>odd_max_machine\<close>:
  \<^verbatim>\<open>RAND_MAX\<close> is 32767 and every call of \<^verbatim>\<open>rand()\<close> returns it; the trie is built from \<open>hello\<close>,
  matrix \<open>l\<close> of the bank holds \<open>l + 1\<close> throughout, and the state vector is zeroed.
\<close>

definition graded_machine :: machine where
  "graded_machine =
     (start_machine 32767 (\<lambda>k. 0))
       \<lparr>readout_weights := map (\<lambda>i. replicate RESERVOIR_SIZE (real i / 64)) [0..<OUT_DIM],
        h_state := replicate RESERVOIR_SIZE 1\<rparr>"

definition overflow_machine :: machine where
  "overflow_machine =
     (start_machine 32767 (\<lambda>k. 0))
       \<lparr>readout_weights := replicate OUT_DIM (replicate RESERVOIR_SIZE 4),
        h_state := replicate RESERVOIR_SIZE (1 / 2)\<rparr>"

definition underflow_machine :: machine where
  "underflow_machine =
     (start_machine 32767 (\<lambda>k. 0))
       \<lparr>readout_weights := replicate OUT_DIM (replicate RESERVOIR_SIZE (- 8)),
        h_state := replicate RESERVOIR_SIZE (1 / 2)\<rparr>"

definition odd_max_machine :: machine where
  "odd_max_machine =
     trie_insert ''hello''
       ((start_machine 32767 (\<lambda>k. 32767))
          \<lparr>reservoir_weights :=
             map (\<lambda>l. replicate (RESERVOIR_SIZE * RESERVOIR_SIZE) (real (l + 1))) [0..<MAX_DEPTH]\<rparr>)"

section \<open>Properties\<close>

lemma activate_tanh_eq: "activate_tanh x = tanh x"
  by (simp add: activate_tanh_def Let_def tanh_altdef)

subsection \<open>Loops\<close>

lemma fold_frame: "(\<And>i s. g (f i s) = g s) \<Longrightarrow> g (fold f xs s) = g s"
  by (induction xs arbitrary: s) simp_all

lemma fold_upt_invariant:
  assumes "P 0 s" and "\<And>i t. i < n \<Longrightarrow> P i t \<Longrightarrow> P (Suc i) (f i t)"
  shows "P n (fold f [0..<n] s)"
  using assms
proof (induction n)
  case 0
  then show ?case by simp
next
  case (Suc n)
  have "P n (fold f [0..<n] s)"
    by (rule Suc.IH) (use Suc.prems in auto)
  then show ?case using Suc.prems(2)[of n] by simp
qed

lemma prefix_update:
  "i < length xs \<Longrightarrow> (map f [0..<i] @ drop i xs)[i := f i] = map f [0..<Suc i] @ drop (Suc i) xs"
  by (simp add: list_update_append upd_conv_take_nth_drop)

lemma prefix_nth:
  "i < length xs \<Longrightarrow> (map f [0..<i] @ drop i xs) ! i = xs ! i"
  by (simp add: nth_append)

lemma fold_sum: "fold (\<lambda>j s. s + f j) [0..<n] (a::real) = a + (\<Sum>j<n. f j)"
  by (induction n) (simp_all add: algebra_simps)

subsection \<open>The sampler\<close>

lemma rand_float_value:
  "fst (rand_float m) = real_of_int (rand_seq m (rand_calls m)) / real_of_int (RAND_MAX m div 2) - 1"
  by (simp add: rand_float_def rand_def)

lemma rand_float_machine:
  "snd (rand_float m) = m\<lparr>rand_calls := rand_calls m + 1\<rparr>"
  by (simp add: rand_float_def rand_def)

lemma rand_float_lower:
  assumes "2 \<le> RAND_MAX m" and "0 \<le> rand_seq m (rand_calls m)"
  shows "- 1 \<le> fst (rand_float m)"
proof -
  have "0 < RAND_MAX m div 2" using assms(1) by simp
  then have "0 \<le> real_of_int (rand_seq m (rand_calls m)) / real_of_int (RAND_MAX m div 2)"
    using assms(2) by simp
  then show ?thesis by (simp add: rand_float_value)
qed

lemma rand_float_upper_even:
  assumes "2 \<le> RAND_MAX m" and "even (RAND_MAX m)" and "rand_seq m (rand_calls m) \<le> RAND_MAX m"
  shows "fst (rand_float m) \<le> 1"
proof -
  obtain k where k: "RAND_MAX m = 2 * k" using assms(2) by (auto elim: evenE)
  then have pos: "0 < k" using assms(1) by simp
  have "rand_seq m (rand_calls m) \<le> 2 * k"
    using assms(3) k by simp
  then have "real_of_int (rand_seq m (rand_calls m)) \<le> real_of_int (2 * k)"
    by (simp only: of_int_le_iff)
  then have "real_of_int (rand_seq m (rand_calls m)) \<le> 2 * real_of_int k"
    by simp
  then have "real_of_int (rand_seq m (rand_calls m)) / real_of_int k \<le> 2"
    using pos by (simp add: divide_le_eq)
  then show ?thesis using k by (simp add: rand_float_value)
qed

lemma rand_float_odd_max:
  assumes "3 \<le> RAND_MAX m" and "odd (RAND_MAX m)" and "rand_seq m (rand_calls m) = RAND_MAX m"
  shows "1 < fst (rand_float m)"
proof -
  obtain k where k: "RAND_MAX m = 2 * k + 1" using assms(2) by (auto elim: oddE)
  then have pos: "0 < k" using assms(1) by simp
  have dv: "RAND_MAX m div 2 = k" using k by simp
  have "2 * real_of_int k < real_of_int (2 * k + 1)" by simp
  then have "2 < real_of_int (2 * k + 1) / real_of_int k"
    using pos by (simp add: less_divide_eq)
  then show ?thesis
    by (simp add: rand_float_value assms(3) dv) (simp add: k)
qed

text \<open>
  Claim C9 (every value \<^verbatim>\<open>rand_float\<close> returns lies in \<open>[-1, 1]\<close>, in exact arithmetic) fails on
  the code: \<^verbatim>\<open>RAND_MAX/2\<close> is an integer division, so for an odd \<^verbatim>\<open>RAND_MAX\<close> the largest
  draw \<^verbatim>\<open>rand() = RAND_MAX\<close> is mapped above 1. With \<^verbatim>\<open>RAND_MAX = 32767\<close>, the least value ISO C
  allows, the result is \<open>32767 / 16383 - 1 = 16384 / 16383\<close>.
\<close>

theorem rand_float_exceeds_one:
  "fst (rand_float (start_machine 32767 (\<lambda>k. 32767))) = 16384 / 16383 \<and>
   1 < fst (rand_float (start_machine 32767 (\<lambda>k. 32767)))"
  by (simp add: rand_float_value start_machine_def)

subsection \<open>Readout: forward pass\<close>

lemma readout_exps_closed:
  assumes "length out_probs = OUT_DIM"
  shows "readout_exps m (out_probs, 0) =
     (map (\<lambda>i. exp (readout_logit m i)) [0..<OUT_DIM],
      (\<Sum>i<OUT_DIM. exp (readout_logit m i)))"
proof -
  let ?e = "\<lambda>i. exp (readout_logit m i)"
  let ?step = "\<lambda>i (out_probs, sum_exp).
             let z = readout_logit m i;
                 out_probs' = out_probs[i := exp z]
             in (out_probs', sum_exp + out_probs' ! i)"
  let ?P = "\<lambda>i t. t = (map ?e [0..<i] @ drop i out_probs, (\<Sum>k<i. ?e k))"
  have "?P OUT_DIM (fold ?step [0..<OUT_DIM] (out_probs, 0))"
  proof (rule fold_upt_invariant [where P = ?P])
    show "?P 0 (out_probs, 0)" by simp
  next
    fix i t
    assume i: "i < OUT_DIM" and t: "?P i t"
    have len: "i < length out_probs" using i assms by simp
    have "(map ?e [0..<i] @ drop i out_probs)[i := ?e i] = map ?e [0..<Suc i] @ drop (Suc i) out_probs"
      by (rule prefix_update [OF len])
    moreover have "(map ?e [0..<i] @ drop i out_probs)[i := ?e i] ! i = ?e i"
      using len by simp
    ultimately show "?P (Suc i) (?step i t)"
      unfolding t by (simp add: Let_def del: upt_Suc)
  qed
  then show ?thesis using assms by (simp add: readout_exps_def)
qed

lemma normalise_closed:
  "n \<le> length xs \<Longrightarrow>
   fold (\<lambda>i out. out[i := out ! i / (s::real)]) [0..<n] xs = map (\<lambda>i. xs ! i / s) [0..<n] @ drop n xs"
proof (induction n)
  case 0
  then show ?case by simp
next
  case (Suc n)
  then have n: "n < length xs" by simp
  have "(map (\<lambda>i. xs ! i / s) [0..<n] @ drop n xs)[n := xs ! n / s]
        = map (\<lambda>i. xs ! i / s) [0..<Suc n] @ drop (Suc n) xs"
    by (rule prefix_update [OF n])
  then show ?case using Suc n by (simp add: prefix_nth del: upt_Suc) (simp add: nth_append)
qed

lemma readout_forward_closed:
  assumes "length out_probs = OUT_DIM"
  shows "readout_forward m out_probs =
     map (\<lambda>i. exp (readout_logit m i) / (\<Sum>k<OUT_DIM. exp (readout_logit m k))) [0..<OUT_DIM]"
  by (simp add: readout_forward_def readout_exps_closed [OF assms] normalise_closed)


lemma sum_list_map_upt: "sum_list (map f [0..<n]) = (\<Sum>i<n. (f i :: real))"
  by (induction n) simp_all

text \<open>
  In exact arithmetic, where no exponential overflows, \<^verbatim>\<open>readout_forward\<close> leaves in the
  \<open>OUT_DIM\<close> cells of \<^verbatim>\<open>out_probs\<close> values that are non-negative and sum to 1.
\<close>

lemma readout_forward_simplex:
  assumes "length out_probs = OUT_DIM"
  shows "length (readout_forward m out_probs) = OUT_DIM \<and>
         (\<forall>p \<in> set (readout_forward m out_probs). 0 \<le> p) \<and>
         sum_list (readout_forward m out_probs) = 1"
proof -
  let ?e = "\<lambda>i. exp (readout_logit m i)"
  let ?S = "\<Sum>k<OUT_DIM. ?e k"
  have pos: "0 < ?S"
    by (rule sum_pos) (simp_all add: OUT_DIM_def lessThan_empty_iff)
  have "sum_list (map (\<lambda>i. ?e i / ?S) [0..<OUT_DIM]) = (\<Sum>i<OUT_DIM. ?e i / ?S)"
    by (rule sum_list_map_upt)
  also have "\<dots> = ?S / ?S"
    by (rule sum_divide_distrib [symmetric])
  also have "\<dots> = 1" using pos by simp
  finally have "sum_list (map (\<lambda>i. ?e i / ?S) [0..<OUT_DIM]) = 1" .
  moreover have "\<forall>p \<in> set (map (\<lambda>i. ?e i / ?S) [0..<OUT_DIM]). 0 \<le> p"
    using pos by (auto intro!: divide_nonneg_pos)
  ultimately show ?thesis
    by (simp add: readout_forward_closed [OF assms])
qed

lemma readout_forward_simplex_instance:
  "length (replicate OUT_DIM (0::real)) = OUT_DIM \<and>
   length (readout_forward (start_machine 32767 (\<lambda>k. 0)) (replicate OUT_DIM 0)) = OUT_DIM \<and>
   list_all (\<lambda>p. 0 \<le> p) (readout_forward (start_machine 32767 (\<lambda>k. 0)) (replicate OUT_DIM 0)) \<and>
   sum_list (readout_forward (start_machine 32767 (\<lambda>k. 0)) (replicate OUT_DIM 0)) = 1"
  using readout_forward_simplex [of "replicate OUT_DIM 0" "start_machine 32767 (\<lambda>k. 0)"]
  by (simp add: list_all_iff)

subsection \<open>Readout: forward pass in the range of binary32\<close>

lemma FLT_MAX_bounds: "1 \<le> FLT_MAX" "FLT_MAX < 2 ^ 128" "0 < FLT_MAX" "128 \<le> FLT_MAX"
  by (simp_all add: FLT_MAX_def)

lemma upt_OUT_DIM: "[0..<OUT_DIM] = [0, 1, 2, 3]"
  by (simp add: OUT_DIM_def upt_rec)

lemma f32_of_Fin: "\<bar>r\<bar> \<le> FLT_MAX \<Longrightarrow> f32_of r = Fin r"
  by (auto simp: f32_of_def)

lemma logit_f32_exact:
  assumes prod: "\<forall>j<RESERVOIR_SIZE. \<bar>readout_weights m ! i ! j * h_state m ! j\<bar> \<le> FLT_MAX"
    and part: "\<forall>n\<le>RESERVOIR_SIZE. \<bar>\<Sum>j<n. readout_weights m ! i ! j * h_state m ! j\<bar> \<le> FLT_MAX"
  shows "readout_logit_f32 m i = Fin (readout_logit m i)"
proof -
  let ?p = "\<lambda>j. readout_weights m ! i ! j * h_state m ! j"
  let ?step = "\<lambda>j z. fadd z (fmul (Fin (readout_weights m ! i ! j)) (Fin (h_state m ! j)))"
  let ?P = "\<lambda>n t. t = Fin (\<Sum>j<n. ?p j)"
  have "?P RESERVOIR_SIZE (fold ?step [0..<RESERVOIR_SIZE] (Fin 0))"
  proof (rule fold_upt_invariant [where P = ?P])
    show "?P 0 (Fin 0)" by simp
  next
    fix n t
    assume n: "n < RESERVOIR_SIZE" and t: "?P n t"
    have a: "f32_of (?p n) = Fin (?p n)"
      using prod n by (intro f32_of_Fin) simp
    have b: "f32_of ((\<Sum>j<n. ?p j) + ?p n) = Fin ((\<Sum>j<n. ?p j) + ?p n)"
      using part [rule_format, of "Suc n"] n by (intro f32_of_Fin) simp
    show "?P (Suc n) (?step n t)"
      unfolding t by (simp add: a b)
  qed
  then show ?thesis
    by (simp add: readout_logit_f32_def readout_logit_def fold_sum)
qed


lemma fold_update_self:
  "n \<le> length xs \<Longrightarrow>
   fold (\<lambda>i out. out[i := g (out ! i)]) [0..<n] xs = map (\<lambda>i. g (xs ! i)) [0..<n] @ drop n xs"
proof (induction n)
  case 0
  then show ?case by simp
next
  case (Suc n)
  then have n: "n < length xs" by simp
  have "(map (\<lambda>i. g (xs ! i)) [0..<n] @ drop n xs)[n := g (xs ! n)]
        = map (\<lambda>i. g (xs ! i)) [0..<Suc n] @ drop (Suc n) xs"
    by (rule prefix_update [where f = "\<lambda>i. g (xs ! i)", OF n])
  then show ?case using Suc n by (simp add: prefix_nth del: upt_Suc) (simp add: nth_append)
qed

lemma readout_forward_f32_closed:
  assumes len: "length out_probs = OUT_DIM"
    and fin: "\<forall>i<OUT_DIM. readout_logit_f32 m i = Fin (z i)"
    and sum: "(\<Sum>i<OUT_DIM. exp (z i)) \<le> FLT_MAX"
    and some: "\<exists>i<OUT_DIM. EXPF_UNDERFLOW \<le> exp (z i)"
  shows "0 < (\<Sum>k<OUT_DIM. if exp (z k) < EXPF_UNDERFLOW then 0 else exp (z k)) \<and>
         readout_forward_f32 m out_probs =
           map (\<lambda>i. Fin ((if exp (z i) < EXPF_UNDERFLOW then 0 else exp (z i))
                          / (\<Sum>k<OUT_DIM. if exp (z k) < EXPF_UNDERFLOW then 0 else exp (z k))))
               [0..<OUT_DIM]"
proof -
  let ?e = "\<lambda>i. if exp (z i) < EXPF_UNDERFLOW then 0 else exp (z i)"
  let ?S = "\<Sum>k<OUT_DIM. ?e k"
  have e0: "0 \<le> ?e i" for i by simp
  have ele: "?e i \<le> exp (z i)" for i by simp
  have part: "(\<Sum>k<n. ?e k) \<le> FLT_MAX" if "n \<le> OUT_DIM" for n
  proof -
    have "(\<Sum>k<n. ?e k) \<le> (\<Sum>k<n. exp (z k))"
      by (rule sum_mono) simp
    also have "\<dots> \<le> (\<Sum>k<OUT_DIM. exp (z k))"
      using that by (intro sum_mono2) auto
    finally show ?thesis using sum by simp
  qed
  have part0: "0 \<le> (\<Sum>k<n. ?e k)" for n
    by (rule sum_nonneg) simp
  have single: "exp (z i) \<le> FLT_MAX" if "i < OUT_DIM" for i
  proof -
    have "exp (z i) \<le> (\<Sum>k<OUT_DIM. exp (z k))"
      using that by (intro member_le_sum) auto
    then show ?thesis using sum by simp
  qed
  have ex: "expf (readout_logit_f32 m i) = Fin (?e i)" if "i < OUT_DIM" for i
    using fin that single [OF that] by simp
  let ?step = "\<lambda>i (out_probs, sum_exp).
             let z = readout_logit_f32 m i;
                 out_probs' = out_probs[i := expf z]
             in (out_probs', fadd sum_exp (out_probs' ! i))"
  let ?P = "\<lambda>i t. t = (map (\<lambda>k. Fin (?e k)) [0..<i] @ drop i out_probs, Fin (\<Sum>k<i. ?e k))"
  have "?P OUT_DIM (fold ?step [0..<OUT_DIM] (out_probs, Fin 0))"
  proof (rule fold_upt_invariant [where P = ?P])
    show "?P 0 (out_probs, Fin 0)" by simp
  next
    fix i t
    assume i: "i < OUT_DIM" and t: "?P i t"
    have l: "i < length out_probs" using i len by simp
    have upd: "(map (\<lambda>k. Fin (?e k)) [0..<i] @ drop i out_probs)[i := Fin (?e i)]
               = map (\<lambda>k. Fin (?e k)) [0..<Suc i] @ drop (Suc i) out_probs"
      by (rule prefix_update [where f = "\<lambda>k. Fin (?e k)", OF l])
    have rd: "(map (\<lambda>k. Fin (?e k)) [0..<i] @ drop i out_probs)[i := Fin (?e i)] ! i = Fin (?e i)"
      using l by simp
    have "\<bar>(\<Sum>k<i. ?e k) + ?e i\<bar> \<le> FLT_MAX"
      using part [of "Suc i"] part0 [of "Suc i"] i by simp
    then have add: "fadd (Fin (\<Sum>k<i. ?e k)) (Fin (?e i)) = Fin (\<Sum>k<Suc i. ?e k)"
      by (simp add: f32_of_Fin)
    have "?step i t =
          ((map (\<lambda>k. Fin (?e k)) [0..<i] @ drop i out_probs)[i := Fin (?e i)],
           fadd (Fin (\<Sum>k<i. ?e k))
             ((map (\<lambda>k. Fin (?e k)) [0..<i] @ drop i out_probs)[i := Fin (?e i)] ! i))"
      unfolding t by (simp only: prod.case Let_def ex [OF i])
    also have "\<dots> = (map (\<lambda>k. Fin (?e k)) [0..<Suc i] @ drop (Suc i) out_probs, Fin (\<Sum>k<Suc i. ?e k))"
      by (simp only: rd add) (simp only: upd)
    finally show "?P (Suc i) (?step i t)" .
  qed
  then have exps: "readout_exps_f32 m (out_probs, Fin 0) = (map (\<lambda>k. Fin (?e k)) [0..<OUT_DIM], Fin ?S)"
    using len by (simp add: readout_exps_f32_def)
  obtain i0 where i0: "i0 < OUT_DIM" "EXPF_UNDERFLOW \<le> exp (z i0)" using some by blast
  then have "0 < ?e i0" by simp
  moreover have "?e i0 \<le> ?S"
    using i0(1) by (intro member_le_sum) auto
  ultimately have pos: "0 < ?S" by linarith
  have q: "fdiv (Fin (?e i)) (Fin ?S) = Fin (?e i / ?S)" if "i < OUT_DIM" for i
  proof -
    have "?e i \<le> ?S" using that by (intro member_le_sum) auto
    then have "?e i / ?S \<le> 1" using pos by (simp add: divide_le_eq)
    moreover have "0 \<le> ?e i / ?S" using pos e0 by (intro divide_nonneg_pos)
    ultimately have "\<bar>?e i / ?S\<bar> \<le> FLT_MAX" using FLT_MAX_bounds(1) by linarith
    then show ?thesis using pos by (simp add: f32_of_Fin)
  qed
  have "readout_forward_f32 m out_probs =
        map (\<lambda>i. fdiv (map (\<lambda>k. Fin (?e k)) [0..<OUT_DIM] ! i) (Fin ?S)) [0..<OUT_DIM]"
    unfolding readout_forward_f32_def exps prod.case
    by (subst fold_update_self) simp_all
  also have "\<dots> = map (\<lambda>i. Fin (?e i / ?S)) [0..<OUT_DIM]"
  proof (rule map_cong [OF refl])
    fix i assume "i \<in> set [0..<OUT_DIM]"
    then have i: "i < OUT_DIM" by simp
    have nthm: "map (\<lambda>k. Fin (?e k)) [0..<OUT_DIM] ! i = Fin (?e i)"
      using i by (simp del: if_split cong: if_cong)
    show "fdiv (map (\<lambda>k. Fin (?e k)) [0..<OUT_DIM] ! i) (Fin ?S) = Fin (?e i / ?S)"
      by (simp only: nthm q [OF i])
  qed
  finally show ?thesis using pos by blast
qed


lemma exp_nat_lower: "2 ^ n \<le> exp (real n)"
proof -
  have "(2::real) \<le> exp 1" using exp_ge_add_one_self [of 1] by simp
  then have "(2::real) ^ n \<le> exp 1 ^ n" by (intro power_mono) simp_all
  also have "\<dots> = exp (real n)" using exp_of_nat_mult [of n "1::real"] by simp
  finally show ?thesis .
qed

lemma exp_nat_upper: "exp (real n) \<le> 3 ^ n"
proof -
  have "exp (real n) = exp 1 ^ n" using exp_of_nat_mult [of n "1::real"] by simp
  also have "\<dots> \<le> 3 ^ n" by (intro power_mono exp_le) simp
  finally show ?thesis .
qed

lemma expf_128: "FLT_MAX < exp 128"
proof -
  have "FLT_MAX < 2 ^ 128" by (rule FLT_MAX_bounds)
  also have "\<dots> \<le> exp (real 128)" by (rule exp_nat_lower)
  finally show ?thesis by simp
qed

lemma constant_logit:
  assumes i: "i < OUT_DIM"
    and cell: "\<And>j. j < RESERVOIR_SIZE \<Longrightarrow> readout_weights m ! i ! j * h_state m ! j = c"
    and c: "\<bar>c\<bar> \<le> 4"
  shows "readout_logit_f32 m i = Fin (64 * c)"
proof -
  have psum: "(\<Sum>j<n. readout_weights m ! i ! j * h_state m ! j) = real n * c"
    if "n \<le> RESERVOIR_SIZE" for n
  proof -
    have "(\<Sum>j<n. readout_weights m ! i ! j * h_state m ! j) = (\<Sum>j<n. c)"
      by (rule sum.cong) (use that cell in auto)
    then show ?thesis by simp
  qed
  have big: "256 \<le> FLT_MAX" by (simp add: FLT_MAX_def)
  have "readout_logit_f32 m i = Fin (readout_logit m i)"
  proof (rule logit_f32_exact; intro allI impI)
    fix j assume "j < RESERVOIR_SIZE"
    then have "readout_weights m ! i ! j * h_state m ! j = c" by (rule cell)
    moreover have "\<bar>c\<bar> \<le> FLT_MAX" using c big by linarith
    ultimately show "\<bar>readout_weights m ! i ! j * h_state m ! j\<bar> \<le> FLT_MAX"
      by (simp only:)
  next
    fix n assume n: "n \<le> RESERVOIR_SIZE"
    then have "real n \<le> 64" by (simp add: RESERVOIR_SIZE_def)
    then have "real n * \<bar>c\<bar> \<le> 64 * 4"
      using c by (intro mult_mono) simp_all
    then have "\<bar>real n * c\<bar> \<le> FLT_MAX"
      using big by (simp add: abs_mult)
    then show "\<bar>\<Sum>j<n. readout_weights m ! i ! j * h_state m ! j\<bar> \<le> FLT_MAX"
      unfolding psum [OF n] .
  qed
  also have "readout_logit m i = 64 * c"
    unfolding readout_logit_def fold_sum using psum [of RESERVOIR_SIZE]
    by (simp add: RESERVOIR_SIZE_def)
  finally show ?thesis .
qed

lemma overflow_logit:
  assumes "i < OUT_DIM"
  shows "readout_logit_f32 overflow_machine i = Fin 128"
proof -
  have "readout_logit_f32 overflow_machine i = Fin (64 * 2)"
    by (rule constant_logit [OF assms]) (use assms in \<open>simp_all add: overflow_machine_def\<close>)
  then show ?thesis by simp
qed

lemma underflow_logit:
  assumes "i < OUT_DIM"
  shows "readout_logit_f32 underflow_machine i = Fin (- 256)"
proof -
  have "readout_logit_f32 underflow_machine i = Fin (64 * (- 4))"
    by (rule constant_logit [OF assms]) (use assms in \<open>simp_all add: underflow_machine_def\<close>)
  then show ?thesis by simp
qed

lemma expf_minus_256: "expf (Fin (- 256)) = Fin 0"
proof -
  have "(2::real) ^ 256 \<le> exp (real 256)" by (rule exp_nat_lower)
  then have l: "(2::real) ^ 256 \<le> exp 256" by simp
  have "exp (- 256 :: real) = 1 / exp 256" by (simp only: exp_minus inverse_eq_divide)
  also have "\<dots> \<le> 1 / 2 ^ 256"
    using l by (intro divide_left_mono) simp_all
  also have "\<dots> < EXPF_UNDERFLOW" by (simp add: EXPF_UNDERFLOW_def)
  finally have u: "exp (- 256 :: real) < EXPF_UNDERFLOW" .
  have "EXPF_UNDERFLOW \<le> FLT_MAX" by (simp add: EXPF_UNDERFLOW_def FLT_MAX_def)
  with u have "\<not> FLT_MAX < exp (- 256 :: real)" by linarith
  with u show ?thesis by (simp only: expf.simps if_True if_False)
qed

text \<open>
  Counterexamples to claim C1 as it is stated, for every state vector: \<^verbatim>\<open>readout_forward\<close>
  takes \<^verbatim>\<open>expf\<close> of the logits as they are, without subtracting their maximum. With every
  readout weight 4 and every state component \<open>1/2\<close>, each logit is 128, each \<^verbatim>\<open>expf\<close> is
  \<open>+inf\<close>, so is \<^verbatim>\<open>sum_exp\<close>, and every quotient \<open>inf / inf\<close> is NaN. With every readout weight
  -8 and the same state, each logit is -256, each \<^verbatim>\<open>expf\<close> underflows to zero, \<^verbatim>\<open>sum_exp\<close> is
  zero, and every quotient \<open>0 / 0\<close> is NaN. Neither result is a list of non-negative
  numbers with sum 1.
\<close>

theorem readout_forward_nan:
  "readout_forward_f32 overflow_machine [Fin 0, Fin 0, Fin 0, Fin 0] = [NaN, NaN, NaN, NaN] \<and>
   readout_forward_f32 underflow_machine [Fin 0, Fin 0, Fin 0, Fin 0] = [NaN, NaN, NaN, NaN] \<and>
   \<not> (\<exists>ps. readout_forward_f32 overflow_machine [Fin 0, Fin 0, Fin 0, Fin 0] = map Fin ps \<and>
             (\<forall>p \<in> set ps. 0 \<le> p) \<and> sum_list ps = 1) \<and>
   \<not> (\<exists>ps. readout_forward_f32 underflow_machine [Fin 0, Fin 0, Fin 0, Fin 0] = map Fin ps \<and>
             (\<forall>p \<in> set ps. 0 \<le> p) \<and> sum_list ps = 1)"
proof -
  have l: "readout_logit_f32 overflow_machine 0 = Fin 128"
    "readout_logit_f32 overflow_machine (Suc 0) = Fin 128"
    "readout_logit_f32 overflow_machine 2 = Fin 128"
    "readout_logit_f32 overflow_machine 3 = Fin 128"
    by (rule overflow_logit, simp add: OUT_DIM_def)+
  have k: "readout_logit_f32 underflow_machine 0 = Fin (- 256)"
    "readout_logit_f32 underflow_machine (Suc 0) = Fin (- 256)"
    "readout_logit_f32 underflow_machine 2 = Fin (- 256)"
    "readout_logit_f32 underflow_machine 3 = Fin (- 256)"
    by (rule underflow_logit, simp add: OUT_DIM_def)+
  have e: "expf (Fin 128) = PInf" using expf_128 by (simp only: expf.simps if_True)
  have z: "f32_of 0 = Fin 0" by (rule f32_of_Fin) (simp add: FLT_MAX_def)
  have a: "readout_forward_f32 overflow_machine [Fin 0, Fin 0, Fin 0, Fin 0] = [NaN, NaN, NaN, NaN]"
    by (simp add: readout_forward_f32_def readout_exps_f32_def upt_OUT_DIM l e del: expf.simps)
  have b: "readout_forward_f32 underflow_machine [Fin 0, Fin 0, Fin 0, Fin 0] = [NaN, NaN, NaN, NaN]"
    by (simp add: readout_forward_f32_def readout_exps_f32_def upt_OUT_DIM k expf_minus_256 z
          del: expf.simps)
  from a b show ?thesis by auto
qed

lemma graded_logit:
  assumes "i < OUT_DIM"
  shows "readout_logit_f32 graded_machine i = Fin (real i)"
proof -
  have "real i \<le> 3" using assms by (simp add: OUT_DIM_def)
  then have c: "\<bar>real i / 64\<bar> \<le> 4" by simp
  have "readout_logit_f32 graded_machine i = Fin (64 * (real i / 64))"
    by (rule constant_logit [OF assms _ c]) (use assms in \<open>simp add: graded_machine_def\<close>)
  then show ?thesis by simp
qed

text \<open>
  Claim C1, amended: for every state vector with which every logit is a finite number, the
  sum of the exponentials of the logits does not exceed \<open>FLT_MAX\<close> (so that no \<^verbatim>\<open>expf\<close> and no
  partial sum of \<^verbatim>\<open>sum_exp\<close> overflows) and at least one exponential does not underflow to
  zero, \<^verbatim>\<open>readout_forward\<close> returns \<open>OUT_DIM\<close> finite values that are non-negative and sum to
  1 (exactly so in this model, which does not round). The first hypothesis is that the
  caller's buffer has \<open>OUT_DIM\<close> cells, whatever they hold.
\<close>

theorem readout_forward_f32_simplex:
  assumes "length out_probs = OUT_DIM"
    and "\<forall>i<OUT_DIM. readout_logit_f32 m i = Fin (z i)"
    and "(\<Sum>i<OUT_DIM. exp (z i)) \<le> FLT_MAX"
    and "\<exists>i<OUT_DIM. EXPF_UNDERFLOW \<le> exp (z i)"
  shows "\<exists>ps. readout_forward_f32 m out_probs = map Fin ps \<and> length ps = OUT_DIM \<and>
              (\<forall>p \<in> set ps. 0 \<le> p) \<and> sum_list ps = 1"
proof -
  let ?e = "\<lambda>i. if exp (z i) < EXPF_UNDERFLOW then 0 else exp (z i)"
  let ?S = "\<Sum>k<OUT_DIM. ?e k"
  let ?ps = "map (\<lambda>i. ?e i / ?S) [0..<OUT_DIM]"
  from readout_forward_f32_closed [OF assms]
  have pos: "0 < ?S"
    and cl: "readout_forward_f32 m out_probs = map (\<lambda>i. Fin (?e i / ?S)) [0..<OUT_DIM]"
    by blast+
  have a: "readout_forward_f32 m out_probs = map Fin ?ps"
    unfolding cl by (simp add: comp_def)
  have b: "length ?ps = OUT_DIM" by simp
  have c: "\<forall>p \<in> set ?ps. 0 \<le> p"
    using pos by (auto intro!: divide_nonneg_pos)
  have "sum_list ?ps = (\<Sum>i<OUT_DIM. ?e i / ?S)"
    by (rule sum_list_map_upt)
  also have "\<dots> = ?S / ?S"
    by (rule sum_divide_distrib [symmetric])
  also have "\<dots> = 1" using pos by simp
  finally have d: "sum_list ?ps = 1" .
  from a b c d show ?thesis by blast
qed

theorem readout_forward_f32_simplex_witness:
  "length [NaN, PInf, Fin 7, NInf] = OUT_DIM \<and>
   readout_logit_f32 graded_machine 0 = Fin 0 \<and>
   readout_logit_f32 graded_machine 1 = Fin 1 \<and>
   readout_logit_f32 graded_machine 2 = Fin 2 \<and>
   readout_logit_f32 graded_machine 3 = Fin 3 \<and>
   (\<Sum>i<OUT_DIM. exp (real i)) \<le> FLT_MAX \<and>
   (\<exists>i<OUT_DIM. EXPF_UNDERFLOW \<le> exp (real i)) \<and>
   (\<exists>ps. readout_forward_f32 graded_machine [NaN, PInf, Fin 7, NInf] = map Fin ps \<and>
         length ps = OUT_DIM \<and> list_all (\<lambda>p. 0 \<le> p) ps \<and> sum_list ps = 1)"
proof -
  have a: "length [NaN, PInf, Fin 7, NInf] = OUT_DIM" by (simp add: OUT_DIM_def)
  have b: "\<forall>i<OUT_DIM. readout_logit_f32 graded_machine i = Fin (real i)"
    using graded_logit by blast
  have "exp (real i) \<le> 27" if "i < OUT_DIM" for i
  proof -
    have "exp (real i) \<le> exp (real 3)" using that by (simp add: OUT_DIM_def)
    also have "\<dots> \<le> 3 ^ 3" by (rule exp_nat_upper)
    finally show ?thesis by simp
  qed
  then have "(\<Sum>i<OUT_DIM. exp (real i)) \<le> real (card {..<OUT_DIM}) * 27"
    by (intro sum_bounded_above) simp
  also have "\<dots> \<le> FLT_MAX" by (simp add: OUT_DIM_def FLT_MAX_def)
  finally have c: "(\<Sum>i<OUT_DIM. exp (real i)) \<le> FLT_MAX" .
  have "EXPF_UNDERFLOW \<le> exp (real 0)" by (simp add: EXPF_UNDERFLOW_def)
  then have d: "\<exists>i<OUT_DIM. EXPF_UNDERFLOW \<le> exp (real i)"
    by (intro exI [of _ 0]) (simp add: OUT_DIM_def)
  have l: "readout_logit_f32 graded_machine 0 = Fin 0"
    "readout_logit_f32 graded_machine 1 = Fin 1"
    "readout_logit_f32 graded_machine 2 = Fin 2"
    "readout_logit_f32 graded_machine 3 = Fin 3"
    using graded_logit [of 0] graded_logit [of 1] graded_logit [of 2] graded_logit [of 3]
    by (simp_all add: OUT_DIM_def)
  from readout_forward_f32_simplex [OF a b c d]
  have "\<exists>ps. readout_forward_f32 graded_machine [NaN, PInf, Fin 7, NInf] = map Fin ps \<and>
         length ps = OUT_DIM \<and> list_all (\<lambda>p. 0 \<le> p) ps \<and> sum_list ps = 1"
    by (simp add: list_all_iff)
  with a l c d show ?thesis by blast
qed

subsection \<open>Readout: training step\<close>

lemma train_row_closed:
  assumes "i < length (readout_weights m)" and "length (readout_weights m ! i) = RESERVOIR_SIZE"
  shows "train_row i lr grad m =
     m\<lparr>readout_weights := (readout_weights m)
          [i := map (\<lambda>j. readout_weights m ! i ! j - lr * grad * h_state m ! j) [0..<RESERVOIR_SIZE]]\<rparr>"
proof -
  let ?W = "readout_weights m"
  let ?f = "\<lambda>j. ?W ! i ! j - lr * grad * h_state m ! j"
  let ?step = "\<lambda>j m. m\<lparr>readout_weights :=
                     (readout_weights m)[i := (readout_weights m ! i)
                        [j := readout_weights m ! i ! j - lr * grad * h_state m ! j]]\<rparr>"
  let ?P = "\<lambda>j t. t = m\<lparr>readout_weights := ?W[i := map ?f [0..<j] @ drop j (?W ! i)]\<rparr>"
  have "?P RESERVOIR_SIZE (fold ?step [0..<RESERVOIR_SIZE] m)"
  proof (rule fold_upt_invariant [where P = ?P])
    show "?P 0 m" by simp
  next
    fix j t
    assume j: "j < RESERVOIR_SIZE" and t: "?P j t"
    have len: "j < length (?W ! i)" using j assms by simp
    have "(map ?f [0..<j] @ drop j (?W ! i))[j := ?f j] = map ?f [0..<Suc j] @ drop (Suc j) (?W ! i)"
      by (rule prefix_update [where f = ?f, OF len])
    moreover have "(map ?f [0..<j] @ drop j (?W ! i)) ! j = ?W ! i ! j"
      using len by (simp add: nth_append)
    ultimately show "?P (Suc j) (?step j t)"
      unfolding t using assms(1) by (simp del: upt_Suc)
  qed
  then show ?thesis using assms by (simp add: train_row_def)
qed

lemma train_row_frame:
  "train_row i lr grad m = m\<lparr>readout_weights := readout_weights (train_row i lr grad m)\<rparr>"
proof -
  let ?step = "\<lambda>j m. m\<lparr>readout_weights :=
                     (readout_weights m)[i := (readout_weights m ! i)
                        [j := readout_weights m ! i ! j - lr * grad * h_state m ! j]]\<rparr>"
  have "\<exists>W. fold ?step xs m = m\<lparr>readout_weights := W\<rparr>" for xs
  proof (induction xs arbitrary: m)
    case Nil
    show ?case by (rule exI [of _ "readout_weights m"]) simp
  next
    case (Cons x xs)
    from Cons.IH [of "?step x m"] show ?case by auto
  qed
  then obtain W where "train_row i lr grad m = m\<lparr>readout_weights := W\<rparr>"
    unfolding train_row_def by blast
  then show ?thesis by simp
qed

lemma readout_train_closed:
  assumes len: "length (readout_weights m) = OUT_DIM"
    and rows: "list_all (\<lambda>row. length row = RESERVOIR_SIZE) (readout_weights m)"
  shows "readout_train gold_index lr m =
     m\<lparr>readout_weights :=
         map (\<lambda>i. map (\<lambda>j. readout_weights m ! i ! j
                      - lr * (if int i = gold_index
                              then readout_forward m (replicate OUT_DIM 0) ! i - 1
                              else readout_forward m (replicate OUT_DIM 0) ! i)
                        * h_state m ! j) [0..<RESERVOIR_SIZE]) [0..<OUT_DIM]\<rparr>"
proof -
  let ?W = "readout_weights m"
  let ?probs = "readout_forward m (replicate OUT_DIM 0)"
  let ?g = "\<lambda>i. if int i = gold_index then ?probs ! i - 1 else ?probs ! i"
  let ?row = "\<lambda>i. map (\<lambda>j. ?W ! i ! j - lr * ?g i * h_state m ! j) [0..<RESERVOIR_SIZE]"
  let ?step = "\<lambda>i m. let grad = ?probs ! i;
                          grad = (if int i = gold_index then grad - 1 else grad)
                      in train_row i lr grad m"
  let ?P = "\<lambda>i t. t = m\<lparr>readout_weights := map ?row [0..<i] @ drop i ?W\<rparr>"
  have "?P OUT_DIM (fold ?step [0..<OUT_DIM] m)"
  proof (rule fold_upt_invariant [where P = ?P])
    show "?P 0 m" by simp
  next
    fix i t
    assume i: "i < OUT_DIM" and t: "?P i t"
    have il: "i < length ?W" using i len by simp
    have rowlen: "length (?W ! i) = RESERVOIR_SIZE"
      using rows il by (simp add: list_all_length)
    have nth: "(map ?row [0..<i] @ drop i ?W) ! i = ?W ! i"
      using il by (simp add: nth_append)
    have upd: "(map ?row [0..<i] @ drop i ?W)[i := ?row i] = map ?row [0..<Suc i] @ drop (Suc i) ?W"
      by (rule prefix_update [where f = ?row, OF il])
    have "train_row i lr (?g i) t =
          t\<lparr>readout_weights := (readout_weights t)
               [i := map (\<lambda>j. readout_weights t ! i ! j - lr * ?g i * h_state t ! j) [0..<RESERVOIR_SIZE]]\<rparr>"
      by (rule train_row_closed) (simp_all add: t il nth rowlen)
    also have "\<dots> = m\<lparr>readout_weights := (map ?row [0..<i] @ drop i ?W)[i := ?row i]\<rparr>"
      by (simp add: t nth)
    finally show "?P (Suc i) (?step i t)"
      by (simp only: upd Let_def)
  qed
  then show ?thesis using len by (simp add: readout_train_def Let_def)
qed


lemma readout_forward_less_one:
  assumes "length out_probs = OUT_DIM" and "i < OUT_DIM"
  shows "readout_forward m out_probs ! i < 1"
proof -
  let ?e = "\<lambda>k. exp (readout_logit m k)"
  have "(\<Sum>k<OUT_DIM. ?e k) = ?e i + (\<Sum>k \<in> {..<OUT_DIM} - {i}. ?e k)"
    using assms(2) by (intro sum.remove) simp_all
  moreover have "0 < (\<Sum>k \<in> {..<OUT_DIM} - {i}. ?e k)"
  proof (rule sum_pos)
    have "(if i = 0 then 1 else 0) \<in> {..<OUT_DIM} - {i}" by (simp add: OUT_DIM_def)
    then show "{..<OUT_DIM} - {i} \<noteq> {}" by blast
  qed simp_all
  ultimately have "?e i < (\<Sum>k<OUT_DIM. ?e k)" by linarith
  moreover have "0 < (\<Sum>k<OUT_DIM. ?e k)"
    using calculation by (rule less_trans [rotated]) simp
  ultimately have "?e i / (\<Sum>k<OUT_DIM. ?e k) < 1" by simp
  then show ?thesis
    using assms(2) by (simp add: readout_forward_closed [OF assms(1)])
qed

text \<open>
  Claim C5: \<^verbatim>\<open>readout_train\<close> computes the probabilities with \<^verbatim>\<open>readout_forward\<close> on the weights
  it is entered with, and then every weight \<open>(i, j)\<close> becomes
  \<open>weights[i][j] - lr * g\<^sub>i * state[j]\<close>, where \<open>g\<^sub>i\<close> is \<open>probabilities[i] - 1\<close> when \<open>i\<close> is the
  gold index and \<open>probabilities[i]\<close> otherwise. The probabilities are what \<^verbatim>\<open>readout_forward\<close>
  returns in any buffer of \<open>OUT_DIM\<close> cells. The other hypotheses are the shape of the
  readout matrix and the range of the two indices; the gold index is any integer.
\<close>

theorem readout_train_update:
  assumes "length (readout_weights m) = OUT_DIM"
    and "list_all (\<lambda>row. length row = RESERVOIR_SIZE) (readout_weights m)"
    and "length out_probs = OUT_DIM"
    and "i < OUT_DIM" and "j < RESERVOIR_SIZE"
  shows "readout_weights (readout_train gold_index lr m) ! i ! j =
         readout_weights m ! i ! j
         - lr * (if int i = gold_index
                 then readout_forward m out_probs ! i - 1
                 else readout_forward m out_probs ! i)
           * h_state m ! j"
proof -
  have "readout_forward m out_probs = readout_forward m (replicate OUT_DIM 0)"
    by (simp add: readout_forward_closed assms(3))
  then show ?thesis
    using assms(4,5) by (simp add: readout_train_closed [OF assms(1,2)])
qed

theorem readout_train_update_witness:
  "length (readout_weights graded_machine) = OUT_DIM \<and>
   list_all (\<lambda>row. length row = RESERVOIR_SIZE) (readout_weights graded_machine) \<and>
   length [1, 2, 3, 4 :: real] = OUT_DIM \<and>
   1 < OUT_DIM \<and> 2 < RESERVOIR_SIZE \<and>
   h_state graded_machine ! 2 = 1 \<and>
   readout_weights (readout_train 1 (1 / 100) graded_machine) ! 1 ! 2 =
     readout_weights graded_machine ! 1 ! 2
     - 1 / 100 * (readout_forward graded_machine [1, 2, 3, 4] ! 1 - 1)
       * h_state graded_machine ! 2 \<and>
   readout_weights graded_machine ! 1 ! 2
     < readout_weights (readout_train 1 (1 / 100) graded_machine) ! 1 ! 2"
proof -
  let ?m = "graded_machine"
  have a: "length (readout_weights ?m) = OUT_DIM"
    by (simp add: graded_machine_def)
  have b: "list_all (\<lambda>row. length row = RESERVOIR_SIZE) (readout_weights ?m)"
    by (simp add: graded_machine_def list_all_length)
  have c: "length [1, 2, 3, 4 :: real] = OUT_DIM" by (simp add: OUT_DIM_def)
  have d: "1 < OUT_DIM" by (simp add: OUT_DIM_def)
  have e: "2 < RESERVOIR_SIZE" by (simp add: RESERVOIR_SIZE_def)
  have h: "h_state ?m ! 2 = 1" using e by (simp add: graded_machine_def)
  have p: "readout_forward ?m [1, 2, 3, 4] ! 1 < 1"
    by (rule readout_forward_less_one [OF c d])
  note u = readout_train_update [OF a b c d e, of 1 "1 / 100"]
  have f: "readout_weights (readout_train 1 (1 / 100) ?m) ! 1 ! 2 =
     readout_weights ?m ! 1 ! 2
     - 1 / 100 * (readout_forward ?m [1, 2, 3, 4] ! 1 - 1) * h_state ?m ! 2"
    using u by simp
  have g: "readout_weights ?m ! 1 ! 2 < readout_weights (readout_train 1 (1 / 100) ?m) ! 1 ! 2"
    unfolding f h using p by simp
  from a b c d e h f g show ?thesis by blast
qed

lemma readout_train_frame:
  "readout_train gold_index lr m = m\<lparr>readout_weights := readout_weights (readout_train gold_index lr m)\<rparr>"
proof -
  let ?probs = "readout_forward m (replicate OUT_DIM 0)"
  let ?step = "\<lambda>i m. let grad = ?probs ! i;
                          grad = (if int i = gold_index then grad - 1 else grad)
                      in train_row i lr grad m"
  have "\<exists>W. fold ?step xs t = t\<lparr>readout_weights := W\<rparr>" for xs t
  proof (induction xs arbitrary: t)
    case Nil
    show ?case by (rule exI [of _ "readout_weights t"]) simp
  next
    case (Cons x xs)
    obtain W where W: "fold ?step xs (?step x t) = (?step x t)\<lparr>readout_weights := W\<rparr>"
      using Cons.IH by blast
    obtain V where V: "?step x t = t\<lparr>readout_weights := V\<rparr>"
      using train_row_frame by (metis)
    show ?case unfolding fold_Cons comp_def W by (subst V) auto
  qed
  then obtain W where "readout_train gold_index lr m = m\<lparr>readout_weights := W\<rparr>"
    unfolding readout_train_def Let_def by blast
  then show ?thesis by simp
qed

text \<open>
  Claim C4: \<^verbatim>\<open>readout_train\<close> writes the readout matrix only. After any number of calls, with
  any gold indices and learning rates, the reservoir bank and the state vector are what
  they were, and so is every other object of the machine.
\<close>

theorem readout_train_only_readout:
  "reservoir_weights (fold (\<lambda>(gold_index, lr). readout_train gold_index lr) calls m)
     = reservoir_weights m \<and>
   h_state (fold (\<lambda>(gold_index, lr). readout_train gold_index lr) calls m) = h_state m \<and>
   fold (\<lambda>(gold_index, lr). readout_train gold_index lr) calls m =
     m\<lparr>readout_weights :=
         readout_weights (fold (\<lambda>(gold_index, lr). readout_train gold_index lr) calls m)\<rparr>"
proof -
  have "\<exists>W. fold (\<lambda>(gold_index, lr). readout_train gold_index lr) calls m = m\<lparr>readout_weights := W\<rparr>"
  proof (induction calls arbitrary: m)
    case Nil
    show ?case by (rule exI [of _ "readout_weights m"]) simp
  next
    case (Cons c calls)
    obtain g lr where c: "c = (g, lr)" by (cases c)
    obtain W where W: "fold (\<lambda>(gold_index, lr). readout_train gold_index lr) calls (readout_train g lr m)
        = (readout_train g lr m)\<lparr>readout_weights := W\<rparr>"
      using Cons.IH by blast
    show ?case unfolding fold_Cons comp_def c prod.case W
      by (subst readout_train_frame) auto
  qed
  then obtain W where W: "fold (\<lambda>(gold_index, lr). readout_train gold_index lr) calls m = m\<lparr>readout_weights := W\<rparr>"
    by blast
  show ?thesis unfolding W by simp
qed

subsection \<open>Trie insertion\<close>

lemma wf_create: "wf_trie (create_trie_node d)"
  by (simp add: create_trie_node_def)

lemma depth_ok_create: "depth_ok (create_trie_node d)"
  by (simp add: create_trie_node_def)

lemma wf_child:
  "wf_trie (TrieNode cs d lf) \<Longrightarrow> k < MAX_CHILDREN \<Longrightarrow> cs ! k = Some n \<Longrightarrow> wf_trie n"
proof -
  assume wf: "wf_trie (TrieNode cs d lf)" and k: "k < MAX_CHILDREN" and n: "cs ! k = Some n"
  from wf k have "cs ! k \<in> set cs" by simp
  with wf n show "wf_trie n" by fastforce
qed

lemma wf_insert: "wf_trie t \<Longrightarrow> wf_trie (trie_insert_from i t s)"
proof (induction i t s rule: trie_insert_from.induct)
  case (1 i cs d lf)
  then show ?case by simp
next
  case (2 i cs d lf c str)
  show ?case
  proof (cases "i < MAX_DEPTH")
    case False
    then show ?thesis using 2(2) by simp
  next
    case True
    define child where "child = (case cs ! of_char c of None \<Rightarrow> create_trie_node (d + 1) | Some n \<Rightarrow> n)"
    have k: "of_char c < MAX_CHILDREN" by (simp add: MAX_CHILDREN_def)
    have "wf_trie child"
      using 2(2) k wf_child [of cs d lf "of_char c"]
      by (auto simp: child_def wf_create split: option.splits)
    then have "wf_trie (trie_insert_from (Suc i) child str)"
      using 2(1) [OF True child_def] by simp
    then show ?thesis using True 2(2)
      by (auto simp: child_def [symmetric] Let_def dest!: set_update_subset_insert [THEN subsetD])
  qed
qed



lemma depth_insert: "depth (trie_insert_from i t s) = depth t"
  by (cases t; cases s) (simp_all add: Let_def)

lemma depth_ok_child:
  assumes "depth_ok (TrieNode cs d lf)" and "k < length cs" and "cs ! k = Some n"
  shows "depth n = d + 1 \<and> depth_ok n"
proof -
  from assms(2) have "cs ! k \<in> set cs" by simp
  with assms(1,3) show ?thesis by fastforce
qed

lemma insert_child_cases:
  assumes "wf_trie (TrieNode cs d lf)"
  shows "wf_trie (case cs ! of_char c of None \<Rightarrow> create_trie_node (d + 1) | Some n \<Rightarrow> n)"
proof (cases "cs ! of_char c")
  case None
  then show ?thesis by (simp add: wf_create)
next
  case (Some n)
  have "of_char c < MAX_CHILDREN" by (simp add: MAX_CHILDREN_def)
  from wf_child [OF assms this Some] Some show ?thesis by simp
qed

lemma insert_child_depth:
  assumes "wf_trie (TrieNode cs d lf)" and "depth_ok (TrieNode cs d lf)"
  shows "depth (case cs ! of_char c of None \<Rightarrow> create_trie_node (d + 1) | Some n \<Rightarrow> n) = d + 1 \<and>
         depth_ok (case cs ! of_char c of None \<Rightarrow> create_trie_node (d + 1) | Some n \<Rightarrow> n)"
proof (cases "cs ! of_char c")
  case None
  then show ?thesis by (simp add: depth_ok_create) (simp add: create_trie_node_def)
next
  case (Some n)
  have "of_char c < length cs" using assms(1) by (simp add: MAX_CHILDREN_def)
  from depth_ok_child [OF assms(2) this Some] Some show ?thesis by simp
qed

lemma depth_ok_insert:
  "wf_trie t \<Longrightarrow> depth_ok t \<Longrightarrow> depth_ok (trie_insert_from i t s)"
proof (induction i t s rule: trie_insert_from.induct)
  case (1 i cs d lf)
  then show ?case by simp
next
  case (2 i cs d lf c str)
  show ?case
  proof (cases "i < MAX_DEPTH")
    case False
    then show ?thesis using 2(3) by simp
  next
    case True
    define child where "child = (case cs ! of_char c of None \<Rightarrow> create_trie_node (d + 1) | Some n \<Rightarrow> n)"
    have wfc: "wf_trie child"
      unfolding child_def by (rule insert_child_cases [OF 2(2)])
    have cd: "depth child = d + 1 \<and> depth_ok child"
      unfolding child_def by (rule insert_child_depth [OF 2(2,3)])
    have "depth_ok (trie_insert_from (Suc i) child str)"
      using 2(1) [OF True child_def wfc] cd by simp
    moreover have "depth (trie_insert_from (Suc i) child str) = d + 1"
      using cd by (simp add: depth_insert)
    ultimately show ?thesis using True 2(3)
      by (auto simp: child_def [symmetric] Let_def dest!: set_update_subset_insert [THEN subsetD])
  qed
qed

lemma insert_truncates:
  "trie_insert_from i t s = trie_insert_from i t (take (MAX_DEPTH - i) s)"
proof (induction i t s rule: trie_insert_from.induct)
  case (1 i cs d lf)
  show ?case by simp
next
  case (2 i cs d lf c str)
  show ?case
  proof (cases "i < MAX_DEPTH")
    case False
    then show ?thesis by simp
  next
    case True
    then have tk: "take (MAX_DEPTH - i) (c # str) = c # take (MAX_DEPTH - Suc i) str"
      by (simp add: take_Cons')
    show ?thesis
      unfolding tk using True 2 [OF True refl] by (simp add: Let_def)
  qed
qed

lemma walk_insert:
  assumes "wf_trie t"
  shows "\<exists>n. walk (trie_insert_from i t s) (take (MAX_DEPTH - i) s) = Some n \<and> is_leaf n = 1 \<and>
             (depth_ok t \<longrightarrow> depth n = depth t + int (min (length s) (MAX_DEPTH - i)))"
  using assms
proof (induction i t s rule: trie_insert_from.induct)
  case (1 i cs d lf)
  show ?case by simp
next
  case (2 i cs d lf c str)
  show ?case
  proof (cases "i < MAX_DEPTH")
    case False
    then show ?thesis by simp
  next
    case True
    define child where "child = (case cs ! of_char c of None \<Rightarrow> create_trie_node (d + 1) | Some n \<Rightarrow> n)"
    define X where "X = trie_insert_from (Suc i) child str"
    have wfc: "wf_trie child"
      unfolding child_def by (rule insert_child_cases [OF 2(2)])
    from 2(1) [OF True child_def wfc]
    obtain n where n: "walk X (take (MAX_DEPTH - Suc i) str) = Some n" "is_leaf n = 1"
      "depth_ok child \<longrightarrow> depth n = depth child + int (min (length str) (MAX_DEPTH - Suc i))"
      unfolding X_def by blast
    have k: "of_char c < length cs" using 2(2) by (simp add: MAX_CHILDREN_def)
    have tk: "take (MAX_DEPTH - i) (c # str) = c # take (MAX_DEPTH - Suc i) str"
      using True by (simp add: take_Cons')
    have ins: "trie_insert_from i (TrieNode cs d lf) (c # str) = TrieNode (cs[of_char c := Some X]) d lf"
      using True by (simp add: Let_def child_def X_def)
    have w: "walk (trie_insert_from i (TrieNode cs d lf) (c # str)) (take (MAX_DEPTH - i) (c # str)) = Some n"
      unfolding tk ins using k n(1) by simp
    have "depth n = d + int (min (length (c # str)) (MAX_DEPTH - i))" if ok: "depth_ok (TrieNode cs d lf)"
    proof -
      have cd: "depth child = d + 1 \<and> depth_ok child"
        unfolding child_def by (rule insert_child_depth [OF 2(2) ok])
      with n(3) have "depth n = d + 1 + int (min (length str) (MAX_DEPTH - Suc i))" by simp
      also have "\<dots> = d + int (min (length (c # str)) (MAX_DEPTH - i))"
      proof -
        have "min (length (c # str)) (MAX_DEPTH - i) = Suc (min (length str) (MAX_DEPTH - Suc i))"
          using True by simp
        then show ?thesis by simp
      qed
      finally show ?thesis .
    qed
    with w n(2) show ?thesis by auto
  qed
qed


lemma sum_list_map_update:
  "k < length xs \<Longrightarrow>
   sum_list (map f (xs[k := y])) + f (xs ! k) = sum_list (map f xs) + (f y :: nat)"
proof (induction xs arbitrary: k)
  case Nil
  then show ?case by simp
next
  case (Cons x xs)
  then show ?case by (cases k) (simp_all add: add.assoc)
qed

lemma nodes_create: "nodes (create_trie_node d) = 1"
  by (simp add: create_trie_node_def)

lemma nodes_insert:
  "wf_trie t \<Longrightarrow> nodes (trie_insert_from i t s) \<le> nodes t + min (length s) (MAX_DEPTH - i)"
proof (induction i t s rule: trie_insert_from.induct)
  case (1 i cs d lf)
  show ?case by simp
next
  case (2 i cs d lf c str)
  show ?case
  proof (cases "i < MAX_DEPTH")
    case False
    then show ?thesis by simp
  next
    case True
    let ?f = "\<lambda>c. case c of None \<Rightarrow> 0 | Some n \<Rightarrow> nodes n"
    define child where "child = (case cs ! of_char c of None \<Rightarrow> create_trie_node (d + 1) | Some n \<Rightarrow> n)"
    define X where "X = trie_insert_from (Suc i) child str"
    have wfc: "wf_trie child"
      unfolding child_def by (rule insert_child_cases [OF 2(2)])
    have X: "nodes X \<le> nodes child + min (length str) (MAX_DEPTH - Suc i)"
      unfolding X_def by (rule 2(1) [OF True child_def wfc])
    have k: "of_char c < length cs" using 2(2) by (simp add: MAX_CHILDREN_def)
    have ch: "nodes child \<le> ?f (cs ! of_char c) + 1"
      by (simp add: child_def nodes_create split: option.split)
    have ins: "trie_insert_from i (TrieNode cs d lf) (c # str) = TrieNode (cs[of_char c := Some X]) d lf"
      using True by (simp add: Let_def child_def X_def)
    have "sum_list (map ?f (cs[of_char c := Some X])) + ?f (cs ! of_char c) = sum_list (map ?f cs) + nodes X"
      using sum_list_map_update [OF k, of ?f "Some X"] by simp
    then have "sum_list (map ?f (cs[of_char c := Some X])) \<le> sum_list (map ?f cs) + 1 + min (length str) (MAX_DEPTH - Suc i)"
      using X ch by linarith
    moreover have "1 + min (length str) (MAX_DEPTH - Suc i) = min (length (c # str)) (MAX_DEPTH - i)"
      using True by simp
    ultimately show ?thesis unfolding ins by simp
  qed
qed

lemma fold_max_ge: "(a::nat) \<le> fold max xs a"
  by (induction xs arbitrary: a) (auto intro: order_trans [OF max.cobounded2])

lemma fold_max_le: "fold max xs (a::nat) \<le> b \<longleftrightarrow> a \<le> b \<and> (\<forall>x \<in> set xs. x \<le> b)"
  by (induction xs arbitrary: a) auto

lemma fold_max_mem: "x \<in> set xs \<Longrightarrow> x \<le> fold max xs (a::nat)"
  using fold_max_le [of xs a "fold max xs a"] by simp

lemma height_create: "height (create_trie_node d) = 0"
proof -
  have "fold max (map (\<lambda>c. case c of None \<Rightarrow> 0 | Some n \<Rightarrow> Suc (height n))
          (replicate MAX_CHILDREN None)) 0 \<le> (0::nat)"
    unfolding fold_max_le by simp
  then show ?thesis
    unfolding create_trie_node_def height.simps by (simp only: le_zero_eq)
qed

lemma height_insert:
  "wf_trie t \<Longrightarrow> height (trie_insert_from i t s) \<le> max (height t) (min (length s) (MAX_DEPTH - i))"
proof (induction i t s rule: trie_insert_from.induct)
  case (1 i cs d lf)
  show ?case by simp
next
  case (2 i cs d lf c str)
  show ?case
  proof (cases "i < MAX_DEPTH")
    case False
    then show ?thesis by simp
  next
    case True
    let ?g = "\<lambda>c. case c of None \<Rightarrow> 0 | Some n \<Rightarrow> Suc (height n)"
    let ?H = "fold max (map ?g cs) 0"
    let ?B = "max ?H (min (length (c # str)) (MAX_DEPTH - i))"
    define child where "child = (case cs ! of_char c of None \<Rightarrow> create_trie_node (d + 1) | Some n \<Rightarrow> n)"
    define X where "X = trie_insert_from (Suc i) child str"
    have wfc: "wf_trie child"
      unfolding child_def by (rule insert_child_cases [OF 2(2)])
    have X: "height X \<le> max (height child) (min (length str) (MAX_DEPTH - Suc i))"
      unfolding X_def by (rule 2(1) [OF True child_def wfc])
    have k: "of_char c < length cs" using 2(2) by (simp add: MAX_CHILDREN_def)
    have ins: "trie_insert_from i (TrieNode cs d lf) (c # str) = TrieNode (cs[of_char c := Some X]) d lf"
      using True by (simp add: Let_def child_def X_def)
    have "?g (cs ! of_char c) \<le> ?H"
      using k by (intro fold_max_mem) simp
    then have ch: "Suc (height child) \<le> max ?H 1"
      by (auto simp: child_def height_create split: option.split)
    have m: "Suc (min (length str) (MAX_DEPTH - Suc i)) = min (length (c # str)) (MAX_DEPTH - i)"
      using True by simp
    have "1 \<le> min (length (c # str)) (MAX_DEPTH - i)" using True by simp
    with ch have "Suc (height child) \<le> ?B" by linarith
    moreover have "Suc (min (length str) (MAX_DEPTH - Suc i)) \<le> ?B"
      unfolding m by simp
    ultimately have gX: "?g (Some X) \<le> ?B" using X by (simp only: option.case) arith
    have "\<forall>x \<in> set (map ?g (cs[of_char c := Some X])). x \<le> ?B"
    proof
      fix x assume "x \<in> set (map ?g (cs[of_char c := Some X]))"
      then obtain y where y: "y \<in> set (cs[of_char c := Some X])" "x = ?g y" by auto
      from y(1) have "y = Some X \<or> y \<in> set cs"
        using set_update_subset_insert [of cs "of_char c" "Some X"] by auto
      then show "x \<le> ?B"
      proof
        assume "y = Some X" with gX y(2) show ?thesis by simp
      next
        assume "y \<in> set cs"
        then have "?g y \<le> ?H" by (intro fold_max_mem) simp
        then show ?thesis using y(2) by simp
      qed
    qed
    then have "fold max (map ?g (cs[of_char c := Some X])) 0 \<le> ?B"
      by (simp only: fold_max_le) simp
    then show ?thesis unfolding ins by simp
  qed
qed


lemma insert_twice:
  "wf_trie t \<Longrightarrow> trie_insert_from i (trie_insert_from i t s) s = trie_insert_from i t s"
proof (induction i t s rule: trie_insert_from.induct)
  case (1 i cs d lf)
  show ?case by simp
next
  case (2 i cs d lf c str)
  show ?case
  proof (cases "i < MAX_DEPTH")
    case False
    then show ?thesis by simp
  next
    case True
    define child where "child = (case cs ! of_char c of None \<Rightarrow> create_trie_node (d + 1) | Some n \<Rightarrow> n)"
    define X where "X = trie_insert_from (Suc i) child str"
    have wfc: "wf_trie child"
      unfolding child_def by (rule insert_child_cases [OF 2(2)])
    have XX: "trie_insert_from (Suc i) X str = X"
      unfolding X_def by (rule 2(1) [OF True child_def wfc])
    have k: "of_char c < length cs" using 2(2) by (simp add: MAX_CHILDREN_def)
    have ins: "trie_insert_from i (TrieNode cs d lf) (c # str) = TrieNode (cs[of_char c := Some X]) d lf"
      using True by (simp add: Let_def child_def X_def)
    show ?thesis unfolding ins using True k XX by (simp add: Let_def)
  qed
qed

lemma insert_absorbed:
  "wf_trie t \<Longrightarrow> trie_insert_from i t s = t \<Longrightarrow>
   trie_insert_from i (trie_insert_from i t s') s = trie_insert_from i t s'"
proof (induction i t s' arbitrary: s rule: trie_insert_from.induct)
  case (1 i cs d lf)
  show ?case
  proof (cases s)
    case Nil
    then show ?thesis by simp
  next
    case (Cons c r)
    with 1(2) show ?thesis by (simp add: Let_def split: if_splits)
  qed
next
  case (2 i cs d lf c' r')
  show ?case
  proof (cases "i < MAX_DEPTH")
    case False
    then show ?thesis by (cases s) simp_all
  next
    case True
    define child' where "child' = (case cs ! of_char c' of None \<Rightarrow> create_trie_node (d + 1) | Some n \<Rightarrow> n)"
    define Y where "Y = trie_insert_from (Suc i) child' r'"
    have wfc: "wf_trie child'"
      unfolding child'_def by (rule insert_child_cases [OF 2(2)])
    have ins': "trie_insert_from i (TrieNode cs d lf) (c' # r') = TrieNode (cs[of_char c' := Some Y]) d lf"
      using True by (simp add: Let_def child'_def Y_def)
    have k': "of_char c' < length cs" using 2(2) by (simp add: MAX_CHILDREN_def)
    show ?thesis
    proof (cases s)
      case Nil
      with 2(3) have "lf = 1" by simp
      then show ?thesis unfolding ins' Nil by simp
    next
      case (Cons c r)
      define X where "X = trie_insert_from (Suc i) (case cs ! of_char c of None \<Rightarrow> create_trie_node (d + 1) | Some n \<Rightarrow> n) r"
      have k: "of_char c < length cs" using 2(2) by (simp add: MAX_CHILDREN_def)
      from 2(3) have upd: "cs[of_char c := Some X] = cs"
        unfolding Cons X_def using True by (simp add: Let_def)
      then have "cs[of_char c := Some X] ! of_char c = cs ! of_char c" by simp
      then have at: "cs ! of_char c = Some X" using k by simp
      have "trie_insert_from (Suc i)
              (case cs ! of_char c of None \<Rightarrow> create_trie_node (d + 1) | Some n \<Rightarrow> n) r = X"
        by (simp only: X_def)
      then have XX: "trie_insert_from (Suc i) X r = X"
        by (simp only: at option.case)
      show ?thesis
      proof (cases "c = c'")
        case True
        then have "child' = X" using at by (simp add: child'_def)
        then have "trie_insert_from (Suc i) Y r = Y"
          using 2(1) [OF \<open>i < MAX_DEPTH\<close> child'_def wfc, of r] XX Y_def by simp
        then show ?thesis
          unfolding ins' Cons using \<open>i < MAX_DEPTH\<close> True k' by (simp add: Let_def)
      next
        case False
        then have ne: "of_char c \<noteq> (of_char c' :: nat)" by simp
        have "(cs[of_char c' := Some Y])[of_char c := Some X] = (cs[of_char c := Some X])[of_char c' := Some Y]"
          using ne by (simp add: list_update_swap)
        then show ?thesis
          unfolding ins' Cons using \<open>i < MAX_DEPTH\<close> ne at XX upd by (simp add: Let_def)
      qed
    qed
  qed
qed

lemma wf_fold_insert:
  "wf_trie t \<Longrightarrow> wf_trie (fold (\<lambda>s t. trie_insert_from 0 t s) strs t)"
  by (induction strs arbitrary: t) (simp_all add: wf_insert)

lemma absorbed_fold:
  "wf_trie t \<Longrightarrow> trie_insert_from 0 t s = t \<Longrightarrow>
   trie_insert_from 0 (fold (\<lambda>s t. trie_insert_from 0 t s) strs t) s
     = fold (\<lambda>s t. trie_insert_from 0 t s) strs t"
proof (induction strs arbitrary: t)
  case Nil
  then show ?case by simp
next
  case (Cons x strs)
  have "trie_insert_from 0 (trie_insert_from 0 t x) s = trie_insert_from 0 t x"
    by (rule insert_absorbed [OF Cons.prems])
  with Cons.IH [of "trie_insert_from 0 t x"] Cons.prems(1) show ?case
    by (simp add: wf_insert)
qed

lemma inserted_absorbed:
  "wf_trie t \<Longrightarrow> s \<in> set strs \<Longrightarrow>
   trie_insert_from 0 (fold (\<lambda>s t. trie_insert_from 0 t s) strs t) s
     = fold (\<lambda>s t. trie_insert_from 0 t s) strs t"
proof (induction strs arbitrary: t)
  case Nil
  then show ?case by simp
next
  case (Cons x strs)
  show ?case
  proof (cases "s = x")
    case True
    have "trie_insert_from 0 (trie_insert_from 0 t s) s = trie_insert_from 0 t s"
      by (rule insert_twice [OF Cons.prems(1)])
    from absorbed_fold [OF wf_insert [OF Cons.prems(1)] this] True show ?thesis by simp
  next
    case False
    with Cons.prems(2) have "s \<in> set strs" by simp
    from Cons.IH [OF wf_insert [OF Cons.prems(1)] this] show ?thesis by simp
  qed
qed

lemma trie_fold_insert:
  "fold trie_insert strs m = m\<lparr>trie := fold (\<lambda>s t. trie_insert_from 0 t s) strs (trie m)\<rparr>"
  by (induction strs arbitrary: m) (simp_all add: trie_insert_def)


text \<open>
  Claim C6: \<^verbatim>\<open>trie_insert\<close> descends \<open>min (length str) MAX_DEPTH\<close> levels and sets the leaf flag
  on the node it reaches there; it adds at most that many nodes, one per level, so the trie
  grows no deeper than \<open>MAX_DEPTH\<close> levels below the root unless it already was; a longer
  string has the effect of its first \<open>MAX_DEPTH\<close> bytes, and there is no error result. The
  hypotheses are the shape of the trie the call is entered with: every node has its
  \<open>MAX_CHILDREN\<close> slots and every child's depth is its parent's plus one.
\<close>

theorem trie_insert_depth_bound:
  assumes "wf_trie (trie m)" and "depth_ok (trie m)"
  shows "(\<exists>n. walk (trie (trie_insert str m)) (take MAX_DEPTH str) = Some n \<and> is_leaf n = 1 \<and>
              depth n = depth (trie m) + int (min (length str) MAX_DEPTH)) \<and>
         nodes (trie (trie_insert str m)) \<le> nodes (trie m) + min (length str) MAX_DEPTH \<and>
         height (trie (trie_insert str m)) \<le> max (height (trie m)) (min (length str) MAX_DEPTH) \<and>
         trie_insert str m = trie_insert (take MAX_DEPTH str) m"
proof -
  have "\<exists>n. walk (trie_insert_from 0 (trie m) str) (take (MAX_DEPTH - 0) str) = Some n \<and> is_leaf n = 1 \<and>
             (depth_ok (trie m) \<longrightarrow> depth n = depth (trie m) + int (min (length str) (MAX_DEPTH - 0)))"
    by (rule walk_insert [OF assms(1)])
  then have a: "\<exists>n. walk (trie (trie_insert str m)) (take MAX_DEPTH str) = Some n \<and> is_leaf n = 1 \<and>
              depth n = depth (trie m) + int (min (length str) MAX_DEPTH)"
    using assms(2) by (simp add: trie_insert_def)
  have b: "nodes (trie (trie_insert str m)) \<le> nodes (trie m) + min (length str) MAX_DEPTH"
    using nodes_insert [OF assms(1), of 0 str] by (simp add: trie_insert_def)
  have c: "height (trie (trie_insert str m)) \<le> max (height (trie m)) (min (length str) MAX_DEPTH)"
    using height_insert [OF assms(1), of 0 str] by (simp add: trie_insert_def)
  have d: "trie_insert str m = trie_insert (take MAX_DEPTH str) m"
    using insert_truncates [of 0 "trie m" str] by (simp add: trie_insert_def)
  from a b c d show ?thesis by blast
qed

theorem trie_insert_depth_bound_witness:
  "wf_trie (trie (start_machine 32767 (\<lambda>k. 0))) \<and> depth_ok (trie (start_machine 32767 (\<lambda>k. 0))) \<and>
   (\<exists>n. walk (trie (trie_insert ''abcdefghijklmnopqrstuvwxyz'' (start_machine 32767 (\<lambda>k. 0))))
            (take MAX_DEPTH ''abcdefghijklmnopqrstuvwxyz'') = Some n \<and> is_leaf n = 1 \<and>
         depth n = depth (trie (start_machine 32767 (\<lambda>k. 0)))
                   + int (min (length ''abcdefghijklmnopqrstuvwxyz'') MAX_DEPTH)) \<and>
   nodes (trie (trie_insert ''abcdefghijklmnopqrstuvwxyz'' (start_machine 32767 (\<lambda>k. 0))))
     \<le> nodes (trie (start_machine 32767 (\<lambda>k. 0))) + min (length ''abcdefghijklmnopqrstuvwxyz'') MAX_DEPTH \<and>
   height (trie (trie_insert ''abcdefghijklmnopqrstuvwxyz'' (start_machine 32767 (\<lambda>k. 0))))
     \<le> max (height (trie (start_machine 32767 (\<lambda>k. 0)))) (min (length ''abcdefghijklmnopqrstuvwxyz'') MAX_DEPTH) \<and>
   trie_insert ''abcdefghijklmnopqrstuvwxyz'' (start_machine 32767 (\<lambda>k. 0))
     = trie_insert (take MAX_DEPTH ''abcdefghijklmnopqrstuvwxyz'') (start_machine 32767 (\<lambda>k. 0))"
proof -
  let ?m = "start_machine 32767 (\<lambda>k. 0)"
  have t: "trie ?m = create_trie_node 0" by (simp add: start_machine_def)
  have a: "wf_trie (trie ?m)" unfolding t by (rule wf_create)
  have b: "depth_ok (trie ?m)" unfolding t by (rule depth_ok_create)
  from trie_insert_depth_bound [OF a b, of "''abcdefghijklmnopqrstuvwxyz''"] a b
  show ?thesis by blast
qed

text \<open>
  Claim C10: inserting a string that was inserted before, at any earlier time, returns the
  machine it is given: the trie is the same tree, with no node added and no depth, flag or
  child changed. The hypothesis is that every node of the first trie has its
  \<open>MAX_CHILDREN\<close> slots.
\<close>

theorem trie_insert_idempotent:
  assumes "wf_trie (trie m)" and "str \<in> set strs"
  shows "trie_insert str (fold trie_insert strs m) = fold trie_insert strs m"
  using inserted_absorbed [OF assms]
  by (simp add: trie_fold_insert trie_insert_def)

theorem trie_insert_idempotent_witness:
  "wf_trie (trie (start_machine 32767 (\<lambda>k. 0))) \<and> ''help'' \<in> set [''hello'', ''help'', ''helium''] \<and>
   trie_insert ''help'' (fold trie_insert [''hello'', ''help'', ''helium''] (start_machine 32767 (\<lambda>k. 0)))
     = fold trie_insert [''hello'', ''help'', ''helium''] (start_machine 32767 (\<lambda>k. 0))"
proof -
  let ?m = "start_machine 32767 (\<lambda>k. 0)"
  have a: "wf_trie (trie ?m)" by (simp add: start_machine_def wf_create)
  have b: "''help'' \<in> set [''hello'', ''help'', ''helium'']" by simp
  from trie_insert_idempotent [OF a b] a b show ?thesis by blast
qed

subsection \<open>Reservoir update and traversal\<close>

lemma matvec_closed:
  assumes "length out = RESERVOIR_SIZE"
  shows "matvec W inp out =
     map (\<lambda>i. \<Sum>j<RESERVOIR_SIZE. W ! (i * RESERVOIR_SIZE + j) * inp ! j) [0..<RESERVOIR_SIZE]"
proof -
  let ?f = "\<lambda>i. \<Sum>j<RESERVOIR_SIZE. W ! (i * RESERVOIR_SIZE + j) * inp ! j"
  let ?step = "\<lambda>i out. out[i := fold (\<lambda>j s. s + W ! (i * RESERVOIR_SIZE + j) * inp ! j)
                           [0..<RESERVOIR_SIZE] 0]"
  let ?P = "\<lambda>i t. t = map ?f [0..<i] @ drop i out"
  have "?P RESERVOIR_SIZE (fold ?step [0..<RESERVOIR_SIZE] out)"
  proof (rule fold_upt_invariant [where P = ?P])
    show "?P 0 out" by simp
  next
    fix i t
    assume i: "i < RESERVOIR_SIZE" and t: "?P i t"
    have len: "i < length out" using i assms by simp
    have "(map ?f [0..<i] @ drop i out)[i := ?f i] = map ?f [0..<Suc i] @ drop (Suc i) out"
      by (rule prefix_update [where f = ?f, OF len])
    then show "?P (Suc i) (?step i t)"
      unfolding t by (simp only: fold_sum add_0)
  qed
  then show ?thesis using assms by (simp add: matvec_def)
qed

lemma add_noise_closed:
  assumes "length (tmp m) = RESERVOIR_SIZE"
  shows "add_noise m =
     m\<lparr>tmp := map (\<lambda>i. tmp m ! i + 1 / 100 * fst (rand_float (m\<lparr>rand_calls := rand_calls m + i\<rparr>)))
                 [0..<RESERVOIR_SIZE],
       rand_calls := rand_calls m + RESERVOIR_SIZE\<rparr>"
proof -
  let ?u = "\<lambda>i. fst (rand_float (m\<lparr>rand_calls := rand_calls m + i\<rparr>))"
  let ?f = "\<lambda>i. tmp m ! i + 1 / 100 * ?u i"
  let ?step = "\<lambda>i m. case rand_float m of (u, m1) \<Rightarrow>
                    m1\<lparr>tmp := (tmp m1)[i := tmp m1 ! i + 1 / 100 * u]\<rparr>"
  let ?P = "\<lambda>i t. t = m\<lparr>tmp := map ?f [0..<i] @ drop i (tmp m), rand_calls := rand_calls m + i\<rparr>"
  have "?P RESERVOIR_SIZE (fold ?step [0..<RESERVOIR_SIZE] m)"
  proof (rule fold_upt_invariant [where P = ?P])
    show "?P 0 m" by simp
  next
    fix i t
    assume i: "i < RESERVOIR_SIZE" and t: "?P i t"
    have len: "i < length (tmp m)" using i assms by simp
    have upd: "(map ?f [0..<i] @ drop i (tmp m))[i := ?f i] = map ?f [0..<Suc i] @ drop (Suc i) (tmp m)"
      by (rule prefix_update [where f = ?f, OF len])
    have nth: "(map ?f [0..<i] @ drop i (tmp m)) ! i = tmp m ! i"
      using len by (simp add: nth_append)
    have u: "fst (rand_float t) = ?u i"
      unfolding t by (simp add: rand_float_value)
    have "?step i t = (snd (rand_float t))\<lparr>tmp := (tmp (snd (rand_float t)))
              [i := tmp (snd (rand_float t)) ! i + 1 / 100 * fst (rand_float t)]\<rparr>"
      by (simp add: case_prod_beta)
    also have "\<dots> = m\<lparr>tmp := (map ?f [0..<i] @ drop i (tmp m))[i := ?f i],
                         rand_calls := rand_calls m + Suc i\<rparr>"
      unfolding u rand_float_machine unfolding t using len by (simp add: nth_append)
    finally show "?P (Suc i) (?step i t)"
      by (simp only: upd)
  qed
  then show ?thesis using assms by (simp add: add_noise_def)
qed

lemma squash_closed:
  assumes "length (h_state m) = RESERVOIR_SIZE"
  shows "squash m =
     m\<lparr>h_state := map (\<lambda>i. ALPHA * activate_tanh (tmp m ! i)) [0..<RESERVOIR_SIZE]\<rparr>"
proof -
  let ?f = "\<lambda>i. ALPHA * activate_tanh (tmp m ! i)"
  let ?step = "\<lambda>i m. let z = activate_tanh (tmp m ! i)
                  in m\<lparr>h_state := (h_state m)[i := ALPHA * z]\<rparr>"
  let ?P = "\<lambda>i t. t = m\<lparr>h_state := map ?f [0..<i] @ drop i (h_state m)\<rparr>"
  have "?P RESERVOIR_SIZE (fold ?step [0..<RESERVOIR_SIZE] m)"
  proof (rule fold_upt_invariant [where P = ?P])
    show "?P 0 m" by simp
  next
    fix i t
    assume i: "i < RESERVOIR_SIZE" and t: "?P i t"
    have len: "i < length (h_state m)" using i assms by simp
    have upd: "(map ?f [0..<i] @ drop i (h_state m))[i := ?f i] = map ?f [0..<Suc i] @ drop (Suc i) (h_state m)"
      by (rule prefix_update [where f = ?f, OF len])
    have "?step i t = m\<lparr>h_state := (map ?f [0..<i] @ drop i (h_state m))[i := ?f i]\<rparr>"
      unfolding t by (simp add: Let_def)
    then show "?P (Suc i) (?step i t)"
      by (simp only: upd)
  qed
  then show ?thesis using assms by (simp add: squash_def)
qed

lemma reservoir_update_closed:
  assumes "length (tmp m) = RESERVOIR_SIZE" and "length (h_state m) = RESERVOIR_SIZE"
  shows "reservoir_update Wl m =
     m\<lparr>tmp := map (\<lambda>i. (\<Sum>j<RESERVOIR_SIZE. Wl ! (i * RESERVOIR_SIZE + j) * h_state m ! j)
                       + 1 / 100 * fst (rand_float (m\<lparr>rand_calls := rand_calls m + i\<rparr>)))
                 [0..<RESERVOIR_SIZE],
       h_state := map (\<lambda>i. ALPHA * tanh ((\<Sum>j<RESERVOIR_SIZE. Wl ! (i * RESERVOIR_SIZE + j) * h_state m ! j)
                       + 1 / 100 * fst (rand_float (m\<lparr>rand_calls := rand_calls m + i\<rparr>))))
                 [0..<RESERVOIR_SIZE],
       rand_calls := rand_calls m + RESERVOIR_SIZE\<rparr>"
proof -
  let ?m1 = "m\<lparr>tmp := matvec Wl (h_state m) (tmp m)\<rparr>"
  have mv: "matvec Wl (h_state m) (tmp m) =
     map (\<lambda>i. \<Sum>j<RESERVOIR_SIZE. Wl ! (i * RESERVOIR_SIZE + j) * h_state m ! j) [0..<RESERVOIR_SIZE]"
    by (rule matvec_closed [OF assms(1)])
  have l1: "length (tmp ?m1) = RESERVOIR_SIZE" by (simp add: mv)
  have rf: "fst (rand_float (?m1\<lparr>rand_calls := rand_calls ?m1 + i\<rparr>))
            = fst (rand_float (m\<lparr>rand_calls := rand_calls m + i\<rparr>))" for i
    by (simp add: rand_float_value)
  note an = add_noise_closed [OF l1, unfolded rf]
  have l2: "length (h_state (add_noise ?m1)) = RESERVOIR_SIZE"
    unfolding an using assms(2) by simp
  show ?thesis
    unfolding reservoir_update_def squash_closed [OF l2]
    unfolding an by (simp add: mv activate_tanh_eq cong: map_cong)
qed


lemma add_noise_frame:
  "trie (add_noise m) = trie m \<and> reservoir_weights (add_noise m) = reservoir_weights m \<and>
   readout_weights (add_noise m) = readout_weights m"
  unfolding add_noise_def
  by (intro conjI fold_frame) (simp_all add: rand_float_def rand_def)

lemma squash_frame:
  "trie (squash m) = trie m \<and> reservoir_weights (squash m) = reservoir_weights m \<and>
   readout_weights (squash m) = readout_weights m"
  unfolding squash_def
  by (intro conjI fold_frame) (simp_all add: Let_def)

lemma reservoir_update_frame:
  "trie (reservoir_update Wl m) = trie m \<and>
   reservoir_weights (reservoir_update Wl m) = reservoir_weights m \<and>
   readout_weights (reservoir_update Wl m) = readout_weights m"
  by (simp add: reservoir_update_def squash_frame add_noise_frame)





lemma walk_depth:
  "wf_trie t \<Longrightarrow> depth_ok t \<Longrightarrow> walk t p = Some n \<Longrightarrow>
   depth n = depth t + int (length p) \<and> wf_trie n \<and> depth_ok n"
proof (induction p arbitrary: t)
  case Nil
  then show ?case by simp
next
  case (Cons c p)
  obtain cs d lf where t: "t = TrieNode cs d lf" by (cases t)
  from Cons.prems(3) obtain child where ch: "cs ! of_char c = Some child"
    and w: "walk child p = Some n"
    unfolding t by (auto split: option.splits)
  have k: "of_char c < MAX_CHILDREN" by (simp add: MAX_CHILDREN_def)
  have wfc: "wf_trie child"
    using wf_child [OF Cons.prems(1) [unfolded t] k ch] .
  have k': "of_char c < length cs" using Cons.prems(1) k by (simp add: t)
  have dc: "depth child = d + 1 \<and> depth_ok child"
    using depth_ok_child [OF Cons.prems(2) [unfolded t] k' ch] .
  from Cons.IH [OF wfc _ w] dc show ?case by (simp add: t)
qed

lemma forward_no_error:
  "wf_trie cur \<Longrightarrow> depth_ok cur \<Longrightarrow> depth cur = int i \<Longrightarrow>
   MAX_DEPTH \<le> length (reservoir_weights m) \<Longrightarrow> \<exists>m'. forward_from i cur str m = Inr m'"
proof (induction str arbitrary: i cur m)
  case Nil
  then show ?case by simp
next
  case (Cons c str)
  show ?case
  proof (cases "i < MAX_DEPTH")
    case False
    then show ?thesis by simp
  next
    case True
    show ?thesis
    proof (cases "children cur ! of_char c")
      case None
      with True show ?thesis by simp
    next
      case (Some child)
      have w: "walk cur [c] = Some child" using Some by simp
      from walk_depth [OF Cons.prems(1,2) w] Cons.prems(3)
      have c: "wf_trie child" "depth_ok child" "depth child = int (Suc i)" by simp_all
      let ?m1 = "reservoir_update (reservoir_weights m ! nat (depth cur)) m"
      have "MAX_DEPTH \<le> length (reservoir_weights ?m1)"
        using Cons.prems(4) by (simp add: reservoir_update_frame)
      from Cons.IH [OF c this] obtain m' where "forward_from (Suc i) child str ?m1 = Inr m'" by blast
      then show ?thesis
        using True Some Cons.prems(3,4) by (simp add: Let_def)
    qed
  qed
qed




lemma cat_dog_walk:
  "walk (fold (\<lambda>s t. trie_insert_from 0 t s) [''cat'', ''dog''] (create_trie_node 0)) ''cat''
     = Some (TrieNode (replicate MAX_CHILDREN None) 3 1)"
  by (simp add: create_trie_node_def MAX_DEPTH_def MAX_CHILDREN_def Let_def)

lemma forward_matched:
  "wf_trie cur \<Longrightarrow> depth_ok cur \<Longrightarrow> depth cur = int i \<Longrightarrow>
   MAX_DEPTH \<le> length (reservoir_weights m) \<Longrightarrow>
   walk cur (take (MAX_DEPTH - i) str) \<noteq> None \<Longrightarrow>
   forward_from i cur str m =
     Inr (fold (\<lambda>k m. reservoir_update (reservoir_weights m ! k) m)
            [i..<i + min (length str) (MAX_DEPTH - i)] m)"
proof (induction str arbitrary: i cur m)
  case Nil
  then show ?case by simp
next
  case (Cons c str)
  show ?case
  proof (cases "i < MAX_DEPTH")
    case False
    then show ?thesis by simp
  next
    case True
    then have tk: "take (MAX_DEPTH - i) (c # str) = c # take (MAX_DEPTH - Suc i) str"
      by (simp add: take_Cons')
    from Cons.prems(5) obtain child where ch: "children cur ! of_char c = Some child"
      and w: "walk child (take (MAX_DEPTH - Suc i) str) \<noteq> None"
      unfolding tk by (auto split: option.splits)
    have w1: "walk cur [c] = Some child" using ch by simp
    from walk_depth [OF Cons.prems(1,2) w1] Cons.prems(3)
    have c: "wf_trie child" "depth_ok child" "depth child = int (Suc i)" by simp_all
    let ?f = "\<lambda>k m. reservoir_update (reservoir_weights m ! k) m"
    let ?m1 = "reservoir_update (reservoir_weights m ! i) m"
    have bank: "MAX_DEPTH \<le> length (reservoir_weights ?m1)"
      using Cons.prems(4) by (simp add: reservoir_update_frame)
    have e: "i + min (length (c # str)) (MAX_DEPTH - i) = Suc i + min (length str) (MAX_DEPTH - Suc i)"
      using True by simp
    have lt: "i < Suc i + min (length str) (MAX_DEPTH - Suc i)" by simp
    have "forward_from i cur (c # str) m = forward_from (Suc i) child str ?m1"
      using True ch Cons.prems(3,4) by (simp add: Let_def)
    also have "\<dots> = Inr (fold ?f [Suc i..<Suc i + min (length str) (MAX_DEPTH - Suc i)] ?m1)"
      by (rule Cons.IH [OF c bank w])
    also have "fold ?f [Suc i..<Suc i + min (length str) (MAX_DEPTH - Suc i)] ?m1
               = fold ?f [i..<Suc i + min (length str) (MAX_DEPTH - Suc i)] m"
      unfolding upt_conv_Cons [OF lt] by simp
    finally show ?thesis unfolding e .
  qed
qed

lemma run_updates_Suc:
  "run_updates (Suc k) m = reservoir_update (reservoir_weights (run_updates k m) ! k) (run_updates k m)"
  by (simp add: run_updates_def)

lemma run_updates_inv:
  assumes "length (tmp m) = RESERVOIR_SIZE" and "length (h_state m) = RESERVOIR_SIZE"
  shows "length (tmp (run_updates k m)) = RESERVOIR_SIZE \<and>
         length (h_state (run_updates k m)) = RESERVOIR_SIZE \<and>
         reservoir_weights (run_updates k m) = reservoir_weights m \<and>
         rand_calls (run_updates k m) = rand_calls m + k * RESERVOIR_SIZE"
proof (induction k)
  case 0
  show ?case using assms by (simp add: run_updates_def)
next
  case (Suc k)
  then have l: "length (tmp (run_updates k m)) = RESERVOIR_SIZE"
    "length (h_state (run_updates k m)) = RESERVOIR_SIZE" by simp_all
  show ?case
    unfolding run_updates_Suc reservoir_update_closed [OF l]
    using Suc by simp
qed

lemma built_trie_shape:
  assumes "trie m0 = create_trie_node 0"
  shows "wf_trie (trie (fold trie_insert strs m0)) \<and> depth_ok (trie (fold trie_insert strs m0)) \<and>
         depth (trie (fold trie_insert strs m0)) = 0"
proof -
  have "wf_trie t \<and> depth_ok t \<and> depth t = 0 \<Longrightarrow>
        wf_trie (fold (\<lambda>s t. trie_insert_from 0 t s) strs t) \<and>
        depth_ok (fold (\<lambda>s t. trie_insert_from 0 t s) strs t) \<and>
        depth (fold (\<lambda>s t. trie_insert_from 0 t s) strs t) = 0" for t
  proof (induction strs arbitrary: t)
    case Nil
    then show ?case by simp
  next
    case (Cons s strs)
    show ?case
      unfolding fold_Cons comp_def
      by (rule Cons.IH) (use Cons.prems in \<open>simp add: wf_insert depth_ok_insert depth_insert\<close>)
  qed
  from this [of "create_trie_node 0"] show ?thesis
    by (simp add: trie_fold_insert assms wf_create depth_ok_create) (simp add: create_trie_node_def)
qed


lemma demo_machine_fields:
  "trie demo_machine = create_trie_node 0"
  "length (reservoir_weights demo_machine) = MAX_DEPTH"
  "length (tmp demo_machine) = RESERVOIR_SIZE"
  "h_state demo_machine = replicate RESERVOIR_SIZE 0"
  by (simp_all add: demo_machine_def start_machine_def)





text \<open>
  The traversal of a matched input in exact arithmetic, whatever \<^verbatim>\<open>rand_float\<close> returns: on
  an input whose first \<open>min (length input) MAX_DEPTH\<close> bytes the trie matches,
  \<^verbatim>\<open>trie_reservoir_forward\<close> returns the machine after exactly that many updates
  (\<open>RESERVOIR_SIZE\<close> draws of \<^verbatim>\<open>rand_float\<close> each), the \<open>k\<close>-th with the matrix
  \<open>reservoir_weights[k]\<close>, \<open>k\<close> being the depth of the node the traversal is at before it
  descends; and the \<open>k\<close>-th update sets component \<open>i\<close> of the state to
  \<open>ALPHA * tanh ((W\<^sub>k * state) i + 0.01 * u\<^sub>i)\<close>, where \<open>u\<^sub>i\<close> is the \<open>i\<close>-th of the next draws of
  \<^verbatim>\<open>rand_float\<close>. The hypotheses: the trie has the shape \<^verbatim>\<open>trie_insert\<close> gives it from a root
  of depth 0, the bank holds \<open>MAX_DEPTH\<close> matrices, \<^verbatim>\<open>tmp\<close> and the state vector have
  \<open>RESERVOIR_SIZE\<close> cells (the zeroed state vector is one such), and the input is matched.
\<close>

lemma forward_matched_updates:
  assumes "wf_trie (trie m)" and "depth_ok (trie m)" and "depth (trie m) = 0"
    and "length (reservoir_weights m) = MAX_DEPTH"
    and "length (tmp m) = RESERVOIR_SIZE"
    and "length (h_state m) = RESERVOIR_SIZE"
    and "walk (trie m) (take MAX_DEPTH input) \<noteq> None"
  shows "trie_reservoir_forward input m = Inr (run_updates (min (length input) MAX_DEPTH) m) \<and>
         rand_calls (run_updates (min (length input) MAX_DEPTH) m)
           = rand_calls m + min (length input) MAX_DEPTH * RESERVOIR_SIZE \<and>
         (\<forall>k < min (length input) MAX_DEPTH. \<forall>i < RESERVOIR_SIZE.
            h_state (run_updates (Suc k) m) ! i =
              ALPHA * tanh ((\<Sum>j<RESERVOIR_SIZE.
                               reservoir_weights m ! k ! (i * RESERVOIR_SIZE + j)
                               * h_state (run_updates k m) ! j)
                            + 1 / 100 * fst (rand_float ((run_updates k m)
                                  \<lparr>rand_calls := rand_calls (run_updates k m) + i\<rparr>))))"
proof (intro conjI allI impI)
  have d: "depth (trie m) = int 0" using assms(3) by simp
  have bank: "MAX_DEPTH \<le> length (reservoir_weights m)" using assms(4) by simp
  have w: "walk (trie m) (take (MAX_DEPTH - 0) input) \<noteq> None" using assms(7) by simp
  show "trie_reservoir_forward input m = Inr (run_updates (min (length input) MAX_DEPTH) m)"
    unfolding trie_reservoir_forward_def run_updates_def
    using forward_matched [OF assms(1,2) d bank w] by simp
next
  show "rand_calls (run_updates (min (length input) MAX_DEPTH) m)
           = rand_calls m + min (length input) MAX_DEPTH * RESERVOIR_SIZE"
    using run_updates_inv [OF assms(5,6)] by simp
next
  fix k i
  assume "k < min (length input) MAX_DEPTH" and i: "i < RESERVOIR_SIZE"
  from run_updates_inv [OF assms(5,6), of k]
  have l: "length (tmp (run_updates k m)) = RESERVOIR_SIZE"
    "length (h_state (run_updates k m)) = RESERVOIR_SIZE"
    and b: "reservoir_weights (run_updates k m) = reservoir_weights m" by simp_all
  show "h_state (run_updates (Suc k) m) ! i =
              ALPHA * tanh ((\<Sum>j<RESERVOIR_SIZE.
                               reservoir_weights m ! k ! (i * RESERVOIR_SIZE + j)
                               * h_state (run_updates k m) ! j)
                            + 1 / 100 * fst (rand_float ((run_updates k m)
                                  \<lparr>rand_calls := rand_calls (run_updates k m) + i\<rparr>)))"
    unfolding run_updates_Suc reservoir_update_closed [OF l] b using i by simp
qed

lemma forward_matched_updates_instance:
  "wf_trie (trie (trie_insert ''hello'' demo_machine)) \<and>
   depth_ok (trie (trie_insert ''hello'' demo_machine)) \<and>
   depth (trie (trie_insert ''hello'' demo_machine)) = 0 \<and>
   length (reservoir_weights (trie_insert ''hello'' demo_machine)) = MAX_DEPTH \<and>
   length (tmp (trie_insert ''hello'' demo_machine)) = RESERVOIR_SIZE \<and>
   length (h_state (trie_insert ''hello'' demo_machine)) = RESERVOIR_SIZE \<and>
   walk (trie (trie_insert ''hello'' demo_machine)) (take MAX_DEPTH ''hello'') \<noteq> None \<and>
   0 < min (length ''hello'') MAX_DEPTH \<and> 0 < RESERVOIR_SIZE \<and>
   trie_reservoir_forward ''hello'' (trie_insert ''hello'' demo_machine)
     = Inr (run_updates (min (length ''hello'') MAX_DEPTH) (trie_insert ''hello'' demo_machine)) \<and>
   rand_calls (run_updates (min (length ''hello'') MAX_DEPTH) (trie_insert ''hello'' demo_machine))
     = rand_calls (trie_insert ''hello'' demo_machine) + min (length ''hello'') MAX_DEPTH * RESERVOIR_SIZE \<and>
   h_state (run_updates (Suc 0) (trie_insert ''hello'' demo_machine)) ! 0 =
     ALPHA * tanh ((\<Sum>j<RESERVOIR_SIZE.
                      reservoir_weights (trie_insert ''hello'' demo_machine) ! 0 ! (0 * RESERVOIR_SIZE + j)
                      * h_state (run_updates 0 (trie_insert ''hello'' demo_machine)) ! j)
                   + 1 / 100 * fst (rand_float ((run_updates 0 (trie_insert ''hello'' demo_machine))
                         \<lparr>rand_calls := rand_calls (run_updates 0 (trie_insert ''hello'' demo_machine)) + 0\<rparr>)))"
proof -
  let ?m = "trie_insert ''hello'' demo_machine"
  have f: "?m = fold trie_insert [''hello''] demo_machine" by simp
  from built_trie_shape [OF demo_machine_fields(1), of "[''hello'']"]
  have a: "wf_trie (trie ?m)" and b: "depth_ok (trie ?m)" and c: "depth (trie ?m) = 0"
    by simp_all
  have d: "length (reservoir_weights ?m) = MAX_DEPTH"
    by (simp add: trie_insert_def demo_machine_fields)
  have e: "length (tmp ?m) = RESERVOIR_SIZE"
    by (simp add: trie_insert_def demo_machine_fields)
  have g: "length (h_state ?m) = RESERVOIR_SIZE"
    by (simp add: trie_insert_def demo_machine_fields)
  have t: "trie ?m = trie_insert_from 0 (create_trie_node 0) ''hello''"
    by (simp add: trie_insert_def demo_machine_fields)
  have h: "walk (trie ?m) (take MAX_DEPTH ''hello'') \<noteq> None"
    unfolding t using walk_insert [OF wf_create, of 0 0 "''hello''"] by auto
  have k: "0 < min (length ''hello'') MAX_DEPTH" by (simp add: MAX_DEPTH_def)
  have i: "0 < RESERVOIR_SIZE" by (simp add: RESERVOIR_SIZE_def)
  from forward_matched_updates [OF a b c d e g h] a b c d e g h k i
  show ?thesis by blast
qed

subsection \<open>The activation in the range of binary32\<close>

lemma expf_finite:
  assumes "exp x \<le> FLT_MAX"
  shows "\<exists>a. expf (Fin x) = Fin a"
proof (cases "exp x < EXPF_UNDERFLOW")
  case True
  with assms show ?thesis by (simp only: expf.simps not_less [symmetric]) simp
next
  case False
  with assms show ?thesis by (simp only: expf.simps not_less [symmetric]) simp
qed

lemma exp_minus_128: "exp (- 128 :: real) \<le> FLT_MAX"
proof -
  have "exp (- 128 :: real) \<le> 1" by (rule exp_le_one_iff [THEN iffD2]) simp
  with FLT_MAX_bounds(1) show ?thesis by (rule order_trans [rotated])
qed

lemma activate_tanh_f32_nan: "activate_tanh_f32 (Fin 128) = NaN"
proof -
  have e1: "expf (Fin 128) = PInf" using expf_128 by (simp only: expf.simps if_True)
  obtain a where e2: "expf (Fin (- 128)) = Fin a"
    using expf_finite [OF exp_minus_128] by blast
  have "activate_tanh_f32 (Fin 128) = fdiv (fsub PInf (Fin a)) (fadd PInf (Fin a))"
    unfolding activate_tanh_f32_def Let_def fneg.simps e1 e2 ..
  also have "\<dots> = NaN"
    by (simp only: fsub_def fneg.simps fadd.simps fdiv.simps)
  finally show ?thesis .
qed

lemma activate_tanh_f32_in_range:
  assumes "exp x + exp (- x) \<le> FLT_MAX"
  shows "activate_tanh_f32 (Fin x) = Fin (activate_tanh x)"
proof -
  have low: "EXPF_UNDERFLOW \<le> exp y" if "exp (- y) \<le> FLT_MAX" for y :: real
  proof -
    have "1 / FLT_MAX \<le> 1 / exp (- y)"
      using that by (intro divide_left_mono) (simp_all add: FLT_MAX_bounds(3))
    moreover have "EXPF_UNDERFLOW \<le> 1 / FLT_MAX"
      by (simp add: EXPF_UNDERFLOW_def FLT_MAX_def)
    ultimately show ?thesis by (simp add: exp_minus inverse_eq_divide)
  qed
  have px: "0 < exp x" "0 < exp (- x)" by simp_all
  with assms have xp: "exp x \<le> FLT_MAX" and xm: "exp (- x) \<le> FLT_MAX"
    by linarith+
  have e1: "expf (Fin x) = Fin (exp x)"
    using xp low [of x] xm by simp
  have e2: "expf (Fin (- x)) = Fin (exp (- x))"
    using xm low [of "- x"] xp by simp
  have sub: "f32_of (exp x - exp (- x)) = Fin (exp x - exp (- x))"
    using assms px by (intro f32_of_Fin) linarith
  have add: "f32_of (exp x + exp (- x)) = Fin (exp x + exp (- x))"
    using assms px by (intro f32_of_Fin) linarith
  have pos: "0 < exp x + exp (- x)" by (simp add: add_pos_pos)
  have "\<bar>exp x - exp (- x)\<bar> \<le> exp x + exp (- x)"
    using px by linarith
  then have "\<bar>(exp x - exp (- x)) / (exp x + exp (- x))\<bar> \<le> 1"
    using pos by (simp add: abs_divide divide_le_eq del: abs_le_iff)
  then have quo: "f32_of ((exp x - exp (- x)) / (exp x + exp (- x)))
             = Fin ((exp x - exp (- x)) / (exp x + exp (- x)))"
    using FLT_MAX_bounds(1) by (intro f32_of_Fin) linarith
  have ne: "exp x + exp (- x) \<noteq> 0" using pos by simp
  have s1: "fsub (Fin (exp x)) (Fin (exp (- x))) = Fin (exp x - exp (- x))"
    by (simp add: fsub_def sub)
  have s2: "fadd (Fin (exp x)) (Fin (exp (- x))) = Fin (exp x + exp (- x))"
    by (simp add: add)
  have s3: "fdiv (Fin (exp x - exp (- x))) (Fin (exp x + exp (- x)))
            = Fin ((exp x - exp (- x)) / (exp x + exp (- x)))"
    using ne by (simp add: quo)
  have "activate_tanh_f32 (Fin x) = fdiv (fsub (Fin (exp x)) (Fin (exp (- x))))
                                         (fadd (Fin (exp x)) (Fin (exp (- x))))"
    unfolding activate_tanh_f32_def Let_def fneg.simps e1 e2 ..
  also have "\<dots> = Fin ((exp x - exp (- x)) / (exp x + exp (- x)))"
    unfolding s1 s2 s3 ..
  finally show ?thesis
    by (simp only: activate_tanh_def Let_def)
qed

subsection \<open>The noise of an update\<close>

lemma odd_max_machine_fields:
  "trie odd_max_machine = trie_insert_from 0 (create_trie_node 0) ''hello''"
  "length (reservoir_weights odd_max_machine) = MAX_DEPTH"
  "length (tmp odd_max_machine) = RESERVOIR_SIZE"
  "h_state odd_max_machine = replicate RESERVOIR_SIZE 0"
  "RAND_MAX odd_max_machine = 32767"
  "rand_seq odd_max_machine = (\<lambda>k. 32767)"
  by (simp_all add: odd_max_machine_def trie_insert_def start_machine_def)

text \<open>
  Claim C3 does not hold of the code in what it says of the noise and of the activation.
  \<open>odd_max_machine\<close> meets every condition of the claim: the trie is the one \<^verbatim>\<open>trie_insert\<close>
  builds from \<open>hello\<close>, the bank holds \<open>MAX_DEPTH\<close> matrices, the state is zeroed and the
  input \<open>hello\<close> is matched. Its \<^verbatim>\<open>RAND_MAX\<close> is 32767 and \<^verbatim>\<open>rand()\<close> returns \<^verbatim>\<open>RAND_MAX\<close>. The
  traversal makes its five updates; in the first the product of the matrix and the zeroed
  state is zero, so what \<^verbatim>\<open>tmp[0]\<close> holds after it is the noise added to component 0, and
  that is \<open>0.01 * 16384 / 16383\<close>: more than 0.01, hence not 0.01 times a number of
  \<open>[-1, 1]\<close>, because \<^verbatim>\<open>rand_float\<close> divides by the integer quotient \<^verbatim>\<open>RAND_MAX/2\<close>. Besides,
  \<^verbatim>\<open>activate_tanh\<close> divides \<open>inf\<close> by \<open>inf\<close> once \<^verbatim>\<open>expf\<close> overflows: at 128 its value in
  binary32 is NaN, where the hyperbolic tangent is within \<open>[-1, 1]\<close>.
\<close>

theorem update_noise_exceeds_bound:
  "trie_reservoir_forward ''hello'' odd_max_machine = Inr (run_updates 5 odd_max_machine) \<and>
   tmp (run_updates 1 odd_max_machine) ! 0 = 1 / 100 * (16384 / 16383) \<and>
   1 / 100 < tmp (run_updates 1 odd_max_machine) ! 0 \<and>
   h_state (run_updates 1 odd_max_machine) ! 0 = ALPHA * tanh (1 / 100 * (16384 / 16383)) \<and>
   activate_tanh_f32 (Fin 128) = NaN"
proof -
  let ?m = "odd_max_machine"
  note f = odd_max_machine_fields
  have wf: "wf_trie (trie ?m)" unfolding f(1) by (rule wf_insert [OF wf_create])
  have ok: "depth_ok (trie ?m)"
    unfolding f(1) by (rule depth_ok_insert [OF wf_create depth_ok_create])
  have d0: "depth (trie ?m) = int 0"
    unfolding f(1) by (simp add: depth_insert create_trie_node_def)
  have bank: "MAX_DEPTH \<le> length (reservoir_weights ?m)" by (simp add: f(2))
  have w: "walk (trie ?m) (take (MAX_DEPTH - 0) ''hello'') \<noteq> None"
    unfolding f(1) using walk_insert [OF wf_create, of 0 0 "''hello''"] by auto
  have n: "0 + min (length ''hello'') (MAX_DEPTH - 0) = 5" by (simp add: MAX_DEPTH_def)
  have a: "trie_reservoir_forward ''hello'' ?m = Inr (run_updates 5 ?m)"
    unfolding trie_reservoir_forward_def run_updates_def
    using forward_matched [OF wf ok d0 bank w] unfolding n .
  have r0: "run_updates 0 ?m = ?m" by (simp add: run_updates_def)
  have lt: "length (tmp ?m) = RESERVOIR_SIZE" by (rule f(3))
  have lh: "length (h_state ?m) = RESERVOIR_SIZE" by (simp add: f(4))
  have pos: "0 < RESERVOIR_SIZE" by (simp add: RESERVOIR_SIZE_def)
  have dot: "(\<Sum>j<RESERVOIR_SIZE. Wl ! j * h_state ?m ! j) = 0" for Wl
    by (rule sum.neutral) (simp add: f(4))
  have draw: "fst (rand_float ?m) = 16384 / 16383"
    by (simp add: rand_float_value f(5,6))
  have one: "run_updates 1 ?m = reservoir_update (reservoir_weights ?m ! 0) ?m"
    using run_updates_Suc [of 0 ?m] by (simp add: r0)
  have b: "tmp (run_updates 1 ?m) ! 0 = 1 / 100 * (16384 / 16383)"
    unfolding one reservoir_update_closed [OF lt lh] using pos
    by (simp add: dot draw)
  have c: "h_state (run_updates 1 ?m) ! 0 = ALPHA * tanh (1 / 100 * (16384 / 16383))"
    unfolding one reservoir_update_closed [OF lt lh] using pos
    by (simp add: dot draw)
  have e: "(1 / 100 :: real) < 1 / 100 * (16384 / 16383)" by simp
  from a b c e activate_tanh_f32_nan show ?thesis by (simp only:)
qed

text \<open>
  Claim C8: in a trie built by any sequence of \<^verbatim>\<open>trie_insert\<close> calls from the root
  \<^verbatim>\<open>create_trie_node(0)\<close>, every child's depth is its parent's plus one, so the node reached
  along \<open>p\<close> has depth \<open>length p\<close>; the index \<^verbatim>\<open>l = cur->depth\<close> that a traversal reads at a node
  it reaches in fewer than \<open>MAX_DEPTH\<close> steps is therefore within a bank of \<open>MAX_DEPTH\<close>
  matrices, and \<^verbatim>\<open>trie_reservoir_forward\<close> never reads outside the bank, whatever the input.
\<close>

theorem built_trie_depth_index:
  assumes "trie m0 = create_trie_node 0" and "length (reservoir_weights m0) = MAX_DEPTH"
  shows "depth_ok (trie (fold trie_insert strs m0)) \<and>
         (\<forall>p n. walk (trie (fold trie_insert strs m0)) p = Some n \<longrightarrow> depth n = int (length p)) \<and>
         (\<forall>p n. walk (trie (fold trie_insert strs m0)) p = Some n \<and> length p < MAX_DEPTH \<longrightarrow>
                0 \<le> depth n \<and> nat (depth n) < length (reservoir_weights (fold trie_insert strs m0))) \<and>
         (\<exists>m'. trie_reservoir_forward input (fold trie_insert strs m0) = Inr m')"
proof -
  let ?m = "fold trie_insert strs m0"
  from built_trie_shape [OF assms(1), of strs]
  have shape: "wf_trie (trie ?m)" "depth_ok (trie ?m)" "depth (trie ?m) = 0" by simp_all
  have bank: "length (reservoir_weights ?m) = MAX_DEPTH"
    using assms(2) by (simp only: trie_fold_insert) simp
  have dp: "depth n = int (length p)" if "walk (trie ?m) p = Some n" for p n
    using walk_depth [OF shape(1,2) that] shape(3) by simp
  have "\<exists>m'. forward_from 0 (trie ?m) input ?m = Inr m'"
    by (rule forward_no_error) (use shape bank in simp_all)
  then have fw: "\<exists>m'. trie_reservoir_forward input ?m = Inr m'"
    by (simp add: trie_reservoir_forward_def)
  from shape(2) dp fw show ?thesis
    by (auto simp: bank)
qed

theorem built_trie_depth_index_witness:
  "trie demo_machine = create_trie_node 0 \<and> length (reservoir_weights demo_machine) = MAX_DEPTH \<and>
   depth_ok (trie (fold trie_insert [''cat'', ''dog''] demo_machine)) \<and>
   walk (trie (fold trie_insert [''cat'', ''dog''] demo_machine)) ''cat''
     = Some (TrieNode (replicate MAX_CHILDREN None) 3 1) \<and>
   length ''cat'' < MAX_DEPTH \<and>
   depth (TrieNode (replicate MAX_CHILDREN None) 3 1) = int (length ''cat'') \<and>
   0 \<le> depth (TrieNode (replicate MAX_CHILDREN None) 3 1) \<and>
   nat (depth (TrieNode (replicate MAX_CHILDREN None) 3 1))
     < length (reservoir_weights (fold trie_insert [''cat'', ''dog''] demo_machine)) \<and>
   (\<exists>m'. trie_reservoir_forward ''catalog'' (fold trie_insert [''cat'', ''dog''] demo_machine) = Inr m')"
proof -
  let ?m = "fold trie_insert [''cat'', ''dog''] demo_machine"
  note d = demo_machine_fields(1,2)
  have t: "trie ?m = fold (\<lambda>s t. trie_insert_from 0 t s) [''cat'', ''dog''] (create_trie_node 0)"
    by (simp only: trie_fold_insert d) simp
  have w: "walk (trie ?m) ''cat'' = Some (TrieNode (replicate MAX_CHILDREN None) 3 1)"
    unfolding t by (rule cat_dog_walk)
  have l: "length ''cat'' < MAX_DEPTH" by (simp add: MAX_DEPTH_def)
  from built_trie_depth_index [OF d, of "[''cat'', ''dog'']" "''catalog''"] w l d
  show ?thesis by blast
qed

subsection \<open>Initialisation of the weight bank\<close>

lemma init_fill_closed:
  assumes l: "l < length (reservoir_weights m)"
    and row: "length (reservoir_weights m ! l) = RESERVOIR_SIZE * RESERVOIR_SIZE"
  shows "init_fill l (m, 0) =
     (m\<lparr>reservoir_weights := (reservoir_weights m)[l := samples m],
        rand_calls := rand_calls m + RESERVOIR_SIZE * RESERVOIR_SIZE\<rparr>,
      sum_list (map abs (samples m)))"
proof -
  let ?N = "RESERVOIR_SIZE * RESERVOIR_SIZE"
  let ?B = "reservoir_weights m"
  let ?u = "\<lambda>i. fst (rand_float (m\<lparr>rand_calls := rand_calls m + i\<rparr>))"
  let ?step = "\<lambda>i (m, norm_sum).
             case rand_float m of (u, m1) \<Rightarrow>
               (let m2 = m1\<lparr>reservoir_weights :=
                              (reservoir_weights m1)[l := (reservoir_weights m1 ! l)[i := u]]\<rparr>
                in (m2, norm_sum + \<bar>reservoir_weights m2 ! l ! i\<bar>))"
  let ?P = "\<lambda>i t. t = (m\<lparr>reservoir_weights := ?B[l := map ?u [0..<i] @ drop i (?B ! l)],
                         rand_calls := rand_calls m + i\<rparr>, (\<Sum>k<i. \<bar>?u k\<bar>))"
  have "?P ?N (fold ?step [0..<?N] (m, 0))"
  proof (rule fold_upt_invariant [where P = ?P])
    show "?P 0 (m, 0)" using l by simp
  next
    fix i t
    assume i: "i < ?N" and t: "?P i t"
    have len: "i < length (?B ! l)" using i row by simp
    have upd: "(map ?u [0..<i] @ drop i (?B ! l))[i := ?u i] = map ?u [0..<Suc i] @ drop (Suc i) (?B ! l)"
      by (rule prefix_update [where f = ?u, OF len])
    have u: "fst (rand_float (fst t)) = ?u i"
      unfolding t by (simp add: rand_float_value)
    have "?step i t =
          ((snd (rand_float (fst t)))\<lparr>reservoir_weights :=
               (reservoir_weights (snd (rand_float (fst t))))
                 [l := (reservoir_weights (snd (rand_float (fst t))) ! l)[i := fst (rand_float (fst t))]]\<rparr>,
           snd t + \<bar>(reservoir_weights (snd (rand_float (fst t))))
                 [l := (reservoir_weights (snd (rand_float (fst t))) ! l)[i := fst (rand_float (fst t))]] ! l ! i\<bar>)"
      by (simp add: case_prod_beta Let_def)
    also have "\<dots> = (m\<lparr>reservoir_weights := ?B[l := (map ?u [0..<i] @ drop i (?B ! l))[i := ?u i]],
                         rand_calls := rand_calls m + Suc i\<rparr>, (\<Sum>k<i. \<bar>?u k\<bar>) + \<bar>?u i\<bar>)"
      unfolding u rand_float_machine unfolding t using l len by simp
    finally show "?P (Suc i) (?step i t)"
      by (simp only: upd) simp
  qed
  then show ?thesis
    using row l by (simp add: init_fill_def samples_def sum_list_map_upt)
qed

lemma init_scale_closed:
  assumes l: "l < length (reservoir_weights m)"
    and row: "length (reservoir_weights m ! l) = RESERVOIR_SIZE * RESERVOIR_SIZE"
  shows "init_scale l scale m =
     m\<lparr>reservoir_weights := (reservoir_weights m)[l := map (\<lambda>x. x * scale) (reservoir_weights m ! l)]\<rparr>"
proof -
  let ?N = "RESERVOIR_SIZE * RESERVOIR_SIZE"
  let ?B = "reservoir_weights m"
  let ?f = "\<lambda>i. ?B ! l ! i * scale"
  let ?step = "\<lambda>i m. m\<lparr>reservoir_weights :=
                     (reservoir_weights m)[l := (reservoir_weights m ! l)
                        [i := reservoir_weights m ! l ! i * scale]]\<rparr>"
  let ?P = "\<lambda>i t. t = m\<lparr>reservoir_weights := ?B[l := map ?f [0..<i] @ drop i (?B ! l)]\<rparr>"
  have "?P ?N (fold ?step [0..<?N] m)"
  proof (rule fold_upt_invariant [where P = ?P])
    show "?P 0 m" by simp
  next
    fix i t
    assume i: "i < ?N" and t: "?P i t"
    have len: "i < length (?B ! l)" using i row by simp
    have upd: "(map ?f [0..<i] @ drop i (?B ! l))[i := ?f i] = map ?f [0..<Suc i] @ drop (Suc i) (?B ! l)"
      by (rule prefix_update [where f = ?f, OF len])
    have "?step i t = m\<lparr>reservoir_weights := ?B[l := (map ?f [0..<i] @ drop i (?B ! l))[i := ?f i]]\<rparr>"
      unfolding t using l len by (simp add: nth_append)
    then show "?P (Suc i) (?step i t)"
      by (simp only: upd)
  qed
  moreover have "map ?f [0..<?N] = map (\<lambda>x. x * scale) (?B ! l)"
    using row by (intro nth_equalityI) simp_all
  ultimately show ?thesis using row by (simp add: init_scale_def)
qed


lemma reservoir_size_sq_pos: "0 < RESERVOIR_SIZE * RESERVOIR_SIZE"
  by (simp add: RESERVOIR_SIZE_def)

lemma length_samples: "length (samples m) = RESERVOIR_SIZE * RESERVOIR_SIZE"
  by (simp add: samples_def)

lemma samples_cong:
  "RAND_MAX a = RAND_MAX b \<Longrightarrow> rand_seq a = rand_seq b \<Longrightarrow> rand_calls a = rand_calls b \<Longrightarrow>
   samples a = samples b"
  by (simp add: samples_def rand_float_value)

lemma init_level_closed:
  assumes l: "l < length (reservoir_weights m)"
  shows "init_level l m =
     Inr (m\<lparr>reservoir_weights :=
              (reservoir_weights m)[l := map (\<lambda>x. x * scale_of (mean_abs (samples m))) (samples m)],
            rand_calls := rand_calls m + RESERVOIR_SIZE * RESERVOIR_SIZE\<rparr>)"
proof -
  let ?N = "RESERVOIR_SIZE * RESERVOIR_SIZE"
  let ?m0 = "m\<lparr>reservoir_weights := (reservoir_weights m)[l := replicate ?N 0]\<rparr>"
  let ?m1 = "?m0\<lparr>reservoir_weights := (reservoir_weights ?m0)[l := samples ?m0],
                 rand_calls := rand_calls ?m0 + ?N\<rparr>"
  have l0: "l < length (reservoir_weights ?m0)" using l by simp
  have r0: "length (reservoir_weights ?m0 ! l) = ?N" using l by simp
  have s0: "samples ?m0 = samples m" by (rule samples_cong) simp_all
  have fill: "init_fill l (?m0, 0) = (?m1, sum_list (map abs (samples m)))"
    using init_fill_closed [OF l0 r0] by (simp only: s0)
  have l1: "l < length (reservoir_weights ?m1)" using l by simp
  have r1: "length (reservoir_weights ?m1 ! l) = ?N" using l by (simp add: s0 length_samples)
  have row1: "reservoir_weights ?m1 ! l = samples m" using l by (simp add: s0)
  have avg: "checked_div (sum_list (map abs (samples m))) (real ?N) = Inr (mean_abs (samples m))"
    using reservoir_size_sq_pos by (simp add: checked_div_def mean_abs_def length_samples)
  have sc: "(if mean_abs (samples m) > 1 / 100000 then checked_div RHO (mean_abs (samples m)) else Inr 1)
            = Inr (scale_of (mean_abs (samples m)))"
    by (simp add: checked_div_def scale_of_def)
  have "init_level l m = Inr (init_scale l (scale_of (mean_abs (samples m))) ?m1)"
    unfolding init_level_def Let_def fill prod.case avg sum.case sc ..
  also have "init_scale l (scale_of (mean_abs (samples m))) ?m1 =
        ?m1\<lparr>reservoir_weights := (reservoir_weights ?m1)
               [l := map (\<lambda>x. x * scale_of (mean_abs (samples m))) (reservoir_weights ?m1 ! l)]\<rparr>"
    by (rule init_scale_closed [OF l1 r1])
  also have "\<dots> = m\<lparr>reservoir_weights :=
              (reservoir_weights m)[l := map (\<lambda>x. x * scale_of (mean_abs (samples m))) (samples m)],
            rand_calls := rand_calls m + ?N\<rparr>"
    unfolding row1 by simp
  finally show ?thesis .
qed

lemma init_levels_closed:
  "length (reservoir_weights m) = n \<Longrightarrow> k \<le> n \<Longrightarrow>
   \<exists>m'. init_levels [k..<n] m = Inr m' \<and>
        (\<forall>l. k \<le> l \<and> l < n \<longrightarrow>
           reservoir_weights m' ! l =
             map (\<lambda>x. x * scale_of (mean_abs
                     (samples (m\<lparr>rand_calls := rand_calls m + (l - k) * (RESERVOIR_SIZE * RESERVOIR_SIZE)\<rparr>))))
                 (samples (m\<lparr>rand_calls := rand_calls m + (l - k) * (RESERVOIR_SIZE * RESERVOIR_SIZE)\<rparr>))) \<and>
        (\<forall>l < k. reservoir_weights m' ! l = reservoir_weights m ! l) \<and>
        length (reservoir_weights m') = n"
proof (induction "n - k" arbitrary: k m)
  case 0
  then have "k = n" by simp
  then show ?case using 0 by auto
next
  case (Suc d)
  let ?N = "RESERVOIR_SIZE * RESERVOIR_SIZE"
  let ?row = "\<lambda>m. map (\<lambda>x. x * scale_of (mean_abs (samples m))) (samples m)"
  from Suc(2) have kn: "k < n" by simp
  let ?m1 = "m\<lparr>reservoir_weights := (reservoir_weights m)[k := ?row m],
               rand_calls := rand_calls m + ?N\<rparr>"
  have lev: "init_level k m = Inr ?m1"
    by (rule init_level_closed) (use kn Suc(3) in simp)
  have d: "d = n - Suc k" using Suc(2) by simp
  have len1: "length (reservoir_weights ?m1) = n" using Suc(3) by simp
  from Suc(1) [OF d len1] kn
  obtain m' where m': "init_levels [Suc k..<n] ?m1 = Inr m'"
    and later: "\<forall>l. Suc k \<le> l \<and> l < n \<longrightarrow>
           reservoir_weights m' ! l = ?row (?m1\<lparr>rand_calls := rand_calls ?m1 + (l - Suc k) * ?N\<rparr>)"
    and earlier: "\<forall>l < Suc k. reservoir_weights m' ! l = reservoir_weights ?m1 ! l"
    and len: "length (reservoir_weights m') = n"
    by auto
  have run: "init_levels [k..<n] m = Inr m'"
    unfolding upt_conv_Cons [OF kn] using lev m' by simp
  have rows: "reservoir_weights m' ! l = ?row (m\<lparr>rand_calls := rand_calls m + (l - k) * ?N\<rparr>)"
    if "k \<le> l" "l < n" for l
  proof (cases "l = k")
    case True
    have "samples (m\<lparr>rand_calls := rand_calls m + (k - k) * ?N\<rparr>) = samples m"
      by (rule samples_cong) simp_all
    then show ?thesis using earlier True kn Suc(3) by simp
  next
    case False
    with that have l: "Suc k \<le> l" by simp
    have "samples (?m1\<lparr>rand_calls := rand_calls ?m1 + (l - Suc k) * ?N\<rparr>)
          = samples (m\<lparr>rand_calls := rand_calls m + (l - k) * ?N\<rparr>)"
    proof (rule samples_cong)
      have "(l - k) = Suc (l - Suc k)" using l by simp
      then show "rand_calls (?m1\<lparr>rand_calls := rand_calls ?m1 + (l - Suc k) * ?N\<rparr>)
            = rand_calls (m\<lparr>rand_calls := rand_calls m + (l - k) * ?N\<rparr>)"
        by simp
    qed simp_all
    with later l that(2) show ?thesis by simp
  qed
  have before: "reservoir_weights m' ! l = reservoir_weights m ! l" if "l < k" for l
    using earlier that by simp
  from run rows before len show ?case by blast
qed

lemma mean_abs_scaled:
  "mean_abs (map (\<lambda>x. x * s) xs) = \<bar>s\<bar> * mean_abs xs"
proof -
  have "sum_list (map abs (map (\<lambda>x. x * s) xs)) = \<bar>s\<bar> * sum_list (map abs xs)"
    by (induction xs) (simp_all add: abs_mult algebra_simps)
  then show ?thesis by (simp add: mean_abs_def)
qed


text \<open>
  Claim C7: \<^verbatim>\<open>init_reservoir_weights\<close> returns without dividing by zero, whatever numbers
  \<^verbatim>\<open>rand()\<close> yields. Matrix \<open>l\<close> is the \<open>l\<close>-th block of \<open>RESERVOIR_SIZE\<^sup>2\<close> values of
  \<^verbatim>\<open>rand_float\<close> times a scale: when the mean absolute value of the block exceeds \<open>10\<^sup>-\<^sup>5\<close> the
  scale is \<open>RHO\<close> over that mean and the mean absolute value of the matrix is \<open>RHO\<close>
  (exactly, in this arithmetic); otherwise the scale is 1.
\<close>

theorem init_reservoir_weights_scaling:
  assumes "l < depth_count"
  shows "\<exists>m'. init_reservoir_weights depth_count seeded m = Inr m' \<and>
           (let raw = samples (m\<lparr>rand_seq := seeded,
                                 rand_calls := l * (RESERVOIR_SIZE * RESERVOIR_SIZE)\<rparr>)
            in if mean_abs raw > 1 / 100000
               then reservoir_weights m' ! l = map (\<lambda>x. x * (RHO / mean_abs raw)) raw \<and>
                    mean_abs (reservoir_weights m' ! l) = RHO
               else reservoir_weights m' ! l = map (\<lambda>x. x * 1) raw)"
proof -
  let ?N = "RESERVOIR_SIZE * RESERVOIR_SIZE"
  let ?m0 = "m\<lparr>reservoir_weights := replicate depth_count [], rand_seq := seeded, rand_calls := 0\<rparr>"
  let ?raw = "samples (m\<lparr>rand_seq := seeded, rand_calls := l * ?N\<rparr>)"
  have len: "length (reservoir_weights ?m0) = depth_count" by simp
  from init_levels_closed [OF len, of 0] assms
  obtain m' where run: "init_levels [0..<depth_count] ?m0 = Inr m'"
    and row: "reservoir_weights m' ! l =
        map (\<lambda>x. x * scale_of (mean_abs (samples (?m0\<lparr>rand_calls := rand_calls ?m0 + (l - 0) * ?N\<rparr>))))
          (samples (?m0\<lparr>rand_calls := rand_calls ?m0 + (l - 0) * ?N\<rparr>))"
    by auto
  have "samples (?m0\<lparr>rand_calls := rand_calls ?m0 + (l - 0) * ?N\<rparr>) = ?raw"
    by (rule samples_cong) simp_all
  with row have W: "reservoir_weights m' ! l = map (\<lambda>x. x * scale_of (mean_abs ?raw)) ?raw"
    by simp
  have big: "mean_abs (reservoir_weights m' ! l) = RHO" if "mean_abs ?raw > 1 / 100000"
  proof -
    from that have pos: "0 < mean_abs ?raw" by simp
    have "mean_abs (reservoir_weights m' ! l) = \<bar>RHO / mean_abs ?raw\<bar> * mean_abs ?raw"
      unfolding W mean_abs_scaled using that by (simp add: scale_of_def)
    also have "\<dots> = RHO" using pos by (simp add: RHO_def)
    finally show ?thesis .
  qed
  have "init_reservoir_weights depth_count seeded m = Inr m'"
    using run by (simp add: init_reservoir_weights_def)
  moreover have "if mean_abs ?raw > 1 / 100000
               then reservoir_weights m' ! l = map (\<lambda>x. x * (RHO / mean_abs ?raw)) ?raw \<and>
                    mean_abs (reservoir_weights m' ! l) = RHO
               else reservoir_weights m' ! l = map (\<lambda>x. x * 1) ?raw"
    using W big by (simp add: scale_of_def)
  ultimately show ?thesis by (simp only: Let_def) blast
qed

lemma samples_constant:
  assumes "\<And>k. rand_seq m k = r"
  shows "samples m = replicate (RESERVOIR_SIZE * RESERVOIR_SIZE)
                       (real_of_int r / real_of_int (RAND_MAX m div 2) - 1)"
  unfolding samples_def by (simp add: rand_float_value assms map_replicate_const)

lemma mean_abs_replicate: "0 < n \<Longrightarrow> mean_abs (replicate n c) = \<bar>c\<bar>"
  by (simp add: mean_abs_def sum_list_replicate)

theorem init_reservoir_weights_scaling_witness:
  "0 < MAX_DEPTH \<and>
   mean_abs (samples ((start_machine 32767 (\<lambda>k. 0))\<lparr>rand_seq := \<lambda>k. 0,
        rand_calls := 0 * (RESERVOIR_SIZE * RESERVOIR_SIZE)\<rparr>)) > 1 / 100000 \<and>
   (\<exists>m'. init_reservoir_weights MAX_DEPTH (\<lambda>k. 0) (start_machine 32767 (\<lambda>k. 0)) = Inr m' \<and>
         mean_abs (reservoir_weights m' ! 0) = RHO) \<and>
   \<not> mean_abs (samples ((start_machine 32767 (\<lambda>k. 0))\<lparr>rand_seq := \<lambda>k. 16383,
        rand_calls := 0 * (RESERVOIR_SIZE * RESERVOIR_SIZE)\<rparr>)) > 1 / 100000 \<and>
   (\<exists>m'. init_reservoir_weights MAX_DEPTH (\<lambda>k. 16383) (start_machine 32767 (\<lambda>k. 0)) = Inr m' \<and>
         reservoir_weights m' ! 0 =
           map (\<lambda>x. x * 1) (samples ((start_machine 32767 (\<lambda>k. 0))\<lparr>rand_seq := \<lambda>k. 16383,
              rand_calls := 0 * (RESERVOIR_SIZE * RESERVOIR_SIZE)\<rparr>)))"
proof -
  let ?N = "RESERVOIR_SIZE * RESERVOIR_SIZE"
  let ?m = "start_machine 32767 (\<lambda>k. 0)"
  let ?a = "samples (?m\<lparr>rand_seq := \<lambda>k. 0, rand_calls := 0 * ?N\<rparr>)"
  let ?b = "samples (?m\<lparr>rand_seq := \<lambda>k. 16383, rand_calls := 0 * ?N\<rparr>)"
  have d: "0 < MAX_DEPTH" by (simp add: MAX_DEPTH_def)
  have "?a = replicate ?N (- 1)"
    by (subst samples_constant [where r = 0]) (simp_all add: start_machine_def)
  then have a: "mean_abs ?a > 1 / 100000"
    by (simp add: mean_abs_replicate [OF reservoir_size_sq_pos])
  have "?b = replicate ?N 0"
    by (subst samples_constant [where r = 16383]) (simp_all add: start_machine_def)
  then have b: "\<not> mean_abs ?b > 1 / 100000"
    by (simp add: mean_abs_replicate [OF reservoir_size_sq_pos])
  from init_reservoir_weights_scaling [OF d, of "\<lambda>k. 0" ?m] a
  have A: "\<exists>m'. init_reservoir_weights MAX_DEPTH (\<lambda>k. 0) ?m = Inr m' \<and>
         mean_abs (reservoir_weights m' ! 0) = RHO"
    by (simp only: Let_def if_True; blast)
  from init_reservoir_weights_scaling [OF d, of "\<lambda>k. 16383" ?m] b
  have B: "\<exists>m'. init_reservoir_weights MAX_DEPTH (\<lambda>k. 16383) ?m = Inr m' \<and>
         reservoir_weights m' ! 0 = map (\<lambda>x. x * 1) ?b"
    by (simp only: Let_def if_False; blast)
  from d a A b B show ?thesis by blast
qed

end
